theory Spec2Isabelle
  imports Main
begin

section \<open>Python string operations used by the requirements handler\<close>

text \<open>
  Package specifiers and command outputs are Python strings. They are modelled as
  \<^typ>\<open>string\<close>; the character classes of the regular expressions are the ASCII
  ones, which is what package names and the version banners of \<^verbatim>\<open>java\<close> and
  \<^verbatim>\<open>javac\<close> consist of.
\<close>

text \<open>\<^verbatim>\<open>s.startswith(p)\<close>\<close>

fun starts_with :: "string \<Rightarrow> string \<Rightarrow> bool" where
  "starts_with [] s = True"
| "starts_with (p # ps) [] = False"
| "starts_with (p # ps) (c # cs) = (p = c \<and> starts_with ps cs)"

text \<open>\<^verbatim>\<open>sub in s\<close>\<close>

fun str_contains :: "string \<Rightarrow> string \<Rightarrow> bool" where
  "str_contains sub [] = (sub = [])"
| "str_contains sub (c # cs) = (starts_with sub (c # cs) \<or> str_contains sub cs)"

text \<open>
  \<^verbatim>\<open>s.split(sep)\<close> and \<^verbatim>\<open>s.split(sep, -1)\<close>: cut at every occurrence of
  \<open>sep\<close>, scanning from the left, occurrences not overlapping. The source only
  splits at the literals \<^verbatim>\<open>' | '\<close> and \<^verbatim>\<open>":"\<close>; Python rejects an empty
  separator, which therefore never reaches this function.
\<close>

fun str_split :: "string \<Rightarrow> string \<Rightarrow> string list" where
  "str_split sep [] = [[]]"
| "str_split sep (c # cs) =
     (if starts_with sep (c # cs) then [] # str_split sep (drop (length sep - 1) cs)
      else (case str_split sep cs of [] \<Rightarrow> [[c]] | p # ps \<Rightarrow> (c # p) # ps))"

text \<open>Comparison of two Python strings with \<^verbatim>\<open><=\<close>: lexicographic, by code point.\<close>

fun str_le :: "string \<Rightarrow> string \<Rightarrow> bool" where
  "str_le [] t = True"
| "str_le (x # xs) [] = False"
| "str_le (x # xs) (y # ys) = ((of_char x :: nat) < of_char y \<or> (x = y \<and> str_le xs ys))"

text \<open>\<^verbatim>\<open>a >= b\<close> on strings.\<close>

definition str_ge :: "string \<Rightarrow> string \<Rightarrow> bool" where
  "str_ge a b = str_le b a"

subsection \<open>The three regular expressions\<close>

definition is_digit :: "char \<Rightarrow> bool" where
  "is_digit c = (c \<in> set ''0123456789'')"

definition is_word :: "char \<Rightarrow> bool" where
  "is_word c =
     (c \<in> set ''abcdefghijklmnopqrstuvwxyzABCDEFGHIJKLMNOPQRSTUVWXYZ0123456789_'')"

definition is_digit_or_dot :: "char \<Rightarrow> bool" where
  "is_digit_or_dot c = (is_digit c \<or> c = CHR ''.'')"

definition dquote :: char where
  "dquote = CHR 0x22"

definition newline :: char where
  "newline = CHR 0x0A"

text \<open>
  \<^verbatim>\<open>openjdk-(\d+)-(j\w\w)\<close> matched at the start of \<open>s\<close>: the digits are taken
  greedily, and giving some back cannot help, since a digit is not \<^verbatim>\<open>-\<close>. The
  result is the pair of groups 1 and 2.
\<close>

definition openjdk_match :: "string \<Rightarrow> (string \<times> string) option" where
  "openjdk_match s =
     (if starts_with ''openjdk-'' s then
        (let rest = drop 8 s; version = takeWhile is_digit rest in
         case dropWhile is_digit rest of
           d # j # a # b # _ \<Rightarrow>
             if version \<noteq> [] \<and> d = CHR ''-'' \<and> j = CHR ''j'' \<and> is_word a \<and> is_word b
             then Some (version, [j, a, b]) else None
         | _ \<Rightarrow> None)
      else None)"

text \<open>\<^verbatim>\<open>re.search(r"openjdk-(\d+)-(j\w\w)", pkg_name)\<close>: the leftmost match, or None.\<close>

fun openjdk_search :: "string \<Rightarrow> (string \<times> string) option" where
  "openjdk_search [] = None"
| "openjdk_search (c # cs) =
     (case openjdk_match (c # cs) of Some m \<Rightarrow> Some m | None \<Rightarrow> openjdk_search cs)"

text \<open>
  \<^verbatim>\<open>version \"([\d\.]+).*\"\<close> matched at the start of \<open>s\<close>: after the opening quote
  a non-empty run of digits and dots (group 1), then a closing quote somewhere on the
  same line (\<^verbatim>\<open>.\<close> does not match a newline).
\<close>

definition java_version_match :: "string \<Rightarrow> string option" where
  "java_version_match s =
     (if starts_with (''version '' @ [dquote]) s then
        (let rest = drop 9 s; version = takeWhile is_digit_or_dot rest in
         if version \<noteq> []
            \<and> dquote \<in> set (takeWhile (\<lambda>c. c \<noteq> newline) (dropWhile is_digit_or_dot rest))
         then Some version else None)
      else None)"

fun java_version_search :: "string \<Rightarrow> string option" where
  "java_version_search [] = None"
| "java_version_search (c # cs) =
     (case java_version_match (c # cs) of Some v \<Rightarrow> Some v | None \<Rightarrow> java_version_search cs)"

text \<open>
  \<^verbatim>\<open>re.search(r"([\d\.]+).*", out)\<close>: group 1 is the first maximal run of digits and
  dots, and there is no match when the output has none.
\<close>

definition javac_version_search :: "string \<Rightarrow> string option" where
  "javac_version_search s =
     (case dropWhile (\<lambda>c. \<not> is_digit_or_dot c) s of
        [] \<Rightarrow> None
      | rest \<Rightarrow> Some (takeWhile is_digit_or_dot rest))"

section \<open>The handler and the system around it\<close>

text \<open>
  The exceptions the modelled code raises. \<open>Raised\<close> carries an explicit message
  (\<^verbatim>\<open>BaseException(msg)\<close>, or an error of the package manager); the others are
  raised by the interpreter or the standard library.
\<close>

datatype error =
    ValueError
  | TypeError
  | UnboundLocalError
  | CalledProcessError
  | FileNotFoundError
  | RecursionError
  | Raised string

text \<open>An \<^verbatim>\<open>apt.Package\<close>, as far as the handler reads it.\<close>

record package =
  is_installed :: bool
  is_upgradable :: bool

text \<open>
  What \<^verbatim>\<open>subprocess.check_output\<close> of a version command does: the command is
  missing (FileNotFoundError), it exits with an error (CalledProcessError), or it
  prints its banner.
\<close>

datatype probe = Missing | Failed | Output string

text \<open>
  The host as the evaluators see it: the results of \<^verbatim>\<open>get_current_arch()\<close> and
  \<^verbatim>\<open>get_foreign_archs()\<close> of \<^verbatim>\<open>umake.tools\<close>, and what running
  \<^verbatim>\<open>java -version\<close> and \<^verbatim>\<open>javac -version\<close> gives.
\<close>

record system =
  current_arch :: string
  foreign_archs :: "string list"
  java_version :: probe
  javac_version :: probe

text \<open>The result handed to the completion callback.\<close>

datatype requirements_result =
  RequirementsResult (result_bucket: "string list") (result_error: "string option")

text \<open>
  The calls that leave the handler during a task: the mutating operations on the
  package manager, and the completion callback.
\<close>

datatype call =
    AddForeignArch string
  | Update
  | MarkUpgrade string
  | MarkInstall string
  | Commit
  | Installed requirements_result

text \<open>
  The handler (\<^verbatim>\<open>self\<close>): the apt cache as last opened, the two cached version
  banners, the exchange file \<^verbatim>\<open>self.apt_fd.name\<close> (its content, None while the
  file does not exist) and the executor's queue of submitted buckets. Three fields
  record what the handler did: the number of \<^verbatim>\<open>cache.open()\<close> calls, the seconds
  slept, and the calls listed above in order.
\<close>

record handler =
  cache :: "string \<rightharpoonup> package"
  jre_installed_version :: "string option"
  jdk_installed_version :: "string option"
  apt_fd :: "string option"
  queue :: "string list list"
  opens :: nat
  slept :: nat
  calls :: "call list"

section \<open>check\_java\_equiv\<close>

text \<open>
  The guarded probe of \<^verbatim>\<open>check_java_equiv\<close>: a cached banner that is neither None
  nor empty is used as it is; otherwise the command runs. \<open>Inr None\<close> stands for the
  early \<^verbatim>\<open>return False\<close> on a missing command.
\<close>

definition installed_banner :: "string option \<Rightarrow> probe \<Rightarrow> error + string option" where
  "installed_banner cached p =
     (case cached of
        Some (c # cs) \<Rightarrow> Inr (Some (c # cs))
      | _ \<Rightarrow> (case p of
                Missing \<Rightarrow> Inr None
              | Failed \<Rightarrow> Inl CalledProcessError
              | Output out \<Rightarrow> Inr (Some out)))"

text \<open>
  A function of the handler returns its result, or the exception it raises, together
  with the handler as the call leaves it.
\<close>

definition check_java_equiv :: "system \<Rightarrow> handler \<Rightarrow> string \<Rightarrow> (error + bool) \<times> handler" where
  "check_java_equiv sys h pkg_name =
     (case openjdk_search pkg_name of
        None \<Rightarrow> (Inl TypeError, h)
      | Some (required_version, required_release) \<Rightarrow>
          if required_release = ''jre'' then
            (case installed_banner (jre_installed_version h) (java_version sys) of
               Inl e \<Rightarrow> (Inl e, h)
             | Inr None \<Rightarrow> (Inr False, h)
             | Inr (Some banner) \<Rightarrow>
                 (case java_version_search banner of
                    None \<Rightarrow> (Inl TypeError, h\<lparr>jre_installed_version := Some banner\<rparr>)
                  | Some installed_version \<Rightarrow>
                      (Inr (str_ge installed_version required_version),
                       h\<lparr>jre_installed_version := Some banner\<rparr>)))
          else if required_release = ''jdk'' then
            (case installed_banner (jdk_installed_version h) (javac_version sys) of
               Inl e \<Rightarrow> (Inl e, h)
             | Inr None \<Rightarrow> (Inr False, h)
             | Inr (Some banner) \<Rightarrow>
                 (case javac_version_search banner of
                    None \<Rightarrow> (Inl TypeError, h\<lparr>jdk_installed_version := Some banner\<rparr>)
                  | Some installed_version \<Rightarrow>
                      (Inr (str_ge installed_version required_version),
                       h\<lparr>jdk_installed_version := Some banner\<rparr>)))
          else (Inl UnboundLocalError, h))"

section \<open>The bucket evaluators\<close>

text \<open>
  The native architecture is stripped from a specifier before the lookup. The tuple
  assignment raises ValueError when the split has more than two parts.
\<close>

definition native_name :: "system \<Rightarrow> string \<Rightarrow> error + string" where
  "native_name sys pkg_name =
     (if str_contains '':'' pkg_name then
        (case str_split '':'' pkg_name of
           [pkg_without_arch_name, arch] \<Rightarrow>
             Inr (if arch = current_arch sys then pkg_without_arch_name else pkg_name)
         | _ \<Rightarrow> Inl ValueError)
      else Inr pkg_name)"

text \<open>
  The body of each loop after the alternation has been looked at: it takes the
  specifier and the flag so far, and returns the new flag.
\<close>

definition installed_item ::
    "system \<Rightarrow> handler \<Rightarrow> string \<Rightarrow> bool \<Rightarrow> (error + bool) \<times> handler" where
  "installed_item sys h pkg_name is_inst =
     (case native_name sys pkg_name of
        Inl e \<Rightarrow> (Inl e, h)
      | Inr name \<Rightarrow>
          if (case cache h name of None \<Rightarrow> True | Some p \<Rightarrow> \<not> is_installed p) then
            (if str_contains ''openjdk'' name then check_java_equiv sys h name
             else (Inr False, h))
          else (Inr is_inst, h))"

definition available_item ::
    "system \<Rightarrow> handler \<Rightarrow> string \<Rightarrow> bool \<Rightarrow> (error + bool) \<times> handler" where
  "available_item sys h pkg_name all_in_cache =
     (if cache h pkg_name = None then
        (case (if str_contains '':'' pkg_name then
                 (case str_split '':'' pkg_name of
                    [pkg_without_arch_name, arch] \<Rightarrow>
                      if arch = current_arch sys \<and> cache h pkg_without_arch_name \<noteq> None
                      then Inr True
                      else if arch \<notin> set (foreign_archs sys) then Inr True
                      else Inr False
                  | _ \<Rightarrow> Inl ValueError)
               else Inr False) of
           Inl e \<Rightarrow> (Inl e, h)
         | Inr True \<Rightarrow> (Inr all_in_cache, h)
         | Inr False \<Rightarrow>
             if str_contains ''openjdk'' pkg_name then
               (case check_java_equiv sys h pkg_name of
                  (Inl e, h') \<Rightarrow> (Inl e, h')
                | (Inr java_ok, h') \<Rightarrow> (Inr (if java_ok then all_in_cache else False), h'))
             else (Inr False, h))
      else (Inr all_in_cache, h))"

definition uptodate_item ::
    "system \<Rightarrow> handler \<Rightarrow> string \<Rightarrow> bool \<Rightarrow> (error + bool) \<times> handler" where
  "uptodate_item sys h pkg_name uptodate =
     (case native_name sys pkg_name of
        Inl e \<Rightarrow> (Inl e, h)
      | Inr name \<Rightarrow>
          (let uptodate' =
                 (case cache h name of
                    None \<Rightarrow> False
                  | Some p \<Rightarrow>
                      if \<not> is_installed p then False
                      else if is_upgradable p then False
                      else uptodate)
           in if str_contains ''openjdk'' name then
                (case check_java_equiv sys h name of
                   (Inl e, h') \<Rightarrow> (Inl e, h')
                 | (Inr java_ok, h') \<Rightarrow> (Inr (if java_ok then True else uptodate'), h'))
              else (Inr uptodate', h)))"

subsection \<open>Mutation while iterating\<close>

text \<open>
  Each evaluator runs \<^verbatim>\<open>for pkg_name in bucket\<close> while its body removes the
  alternation from the bucket and appends the chosen alternative. A Python list iterator
  holds an index and compares it with the current length before every step, so the loop
  is a recursion over the index \<open>i\<close> on the bucket as it stands. The inner
  \<^verbatim>\<open>for package in pkg_name.split(' | ')\<close> is the function on the alternatives still
  to try; it calls the evaluator on the one-element bucket \<^verbatim>\<open>[package]\<close>.
\<close>

text \<open>The measure of the recursion: the characters still ahead, each specifier counted once more.\<close>

definition weight :: "string list \<Rightarrow> nat" where
  "weight xs = sum_list (map (\<lambda>s. Suc (length s)) xs)"

lemma starts_with_length: "starts_with p s \<Longrightarrow> length p \<le> length s"
  by (induction p s rule: starts_with.induct) auto

lemma weight_split_le: "sep \<noteq> [] \<Longrightarrow> weight (str_split sep s) \<le> Suc (length s)"
proof (induction sep s rule: str_split.induct)
  case (1 sep)
  then show ?case by (simp add: weight_def)
next
  case (2 sep c cs)
  show ?case
  proof (cases "starts_with sep (c # cs)")
    case True
    with 2 have "weight (str_split sep (drop (length sep - 1) cs)) \<le> Suc (length cs)"
      by (auto intro: le_trans)
    with True show ?thesis by (simp add: weight_def)
  next
    case False
    with 2 have ih: "weight (str_split sep cs) \<le> Suc (length cs)" by simp
    with False show ?thesis by (cases "str_split sep cs") (auto simp: weight_def)
  qed
qed

lemma weight_split_less:
  "2 \<le> length sep \<Longrightarrow> str_contains sep s \<Longrightarrow> weight (str_split sep s) < Suc (length s)"
proof (induction sep s rule: str_split.induct)
  case (1 sep)
  then show ?case by auto
next
  case (2 sep c cs)
  show ?case
  proof (cases "starts_with sep (c # cs)")
    case True
    from 2(3) have ne: "sep \<noteq> []" by auto
    from True have "length sep \<le> Suc (length cs)" using starts_with_length by fastforce
    with 2(3) have "length (drop (length sep - 1) cs) < length cs" by (cases cs) auto
    moreover have "weight (str_split sep (drop (length sep - 1) cs))
        \<le> Suc (length (drop (length sep - 1) cs))"
      using weight_split_le [OF ne] .
    ultimately show ?thesis using True by (simp add: weight_def)
  next
    case False
    with 2 have ih: "weight (str_split sep cs) < Suc (length cs)" by simp
    with False show ?thesis by (cases "str_split sep cs") (auto simp: weight_def)
  qed
qed

lemma weight_drop_remove1: "weight (drop n (remove1 x b)) \<le> weight (drop n b)"
proof (induction b arbitrary: n)
  case Nil
  then show ?case by simp
next
  case (Cons a b)
  show ?case
  proof (cases n)
    case 0
    with Cons.IH [of 0] show ?thesis by (auto simp: weight_def)
  next
    case (Suc m)
    have "weight (drop (Suc m) b) \<le> weight (drop m b)"
      by (cases "m < length b") (auto simp: weight_def Cons_nth_drop_Suc [symmetric])
    with Suc Cons show ?thesis by auto
  qed
qed

lemma weight_drop_append: "weight (drop n (ys @ [p])) \<le> weight (drop n ys) + Suc (length p)"
  by (cases "n - length ys") (simp_all add: weight_def)

lemma weight_resolved:
  "weight (drop (Suc i) (remove1 x bucket @ [p])) \<le> weight (drop (Suc i) bucket) + Suc (length p)"
  using weight_drop_append [of "Suc i" "remove1 x bucket" p] weight_drop_remove1 [of "Suc i" x bucket]
  by simp

lemma weight_alternation:
  "i < length bucket \<Longrightarrow> str_contains '' | '' (bucket ! i) \<Longrightarrow>
   weight (drop (Suc i) bucket) + weight (str_split '' | '' (bucket ! i)) < weight (drop i bucket)"
proof -
  assume i: "i < length bucket" and alt: "str_contains '' | '' (bucket ! i)"
  have "weight (str_split '' | '' (bucket ! i)) < Suc (length (bucket ! i))"
    using alt by (intro weight_split_less) auto
  moreover have "weight (drop i bucket) = Suc (length (bucket ! i)) + weight (drop (Suc i) bucket)"
    using i by (simp add: weight_def Cons_nth_drop_Suc [symmetric])
  ultimately show ?thesis by simp
qed

lemma weight_next: "i < length bucket \<Longrightarrow> weight (drop (Suc i) bucket) < weight (drop i bucket)"
  by (simp add: weight_def Cons_nth_drop_Suc [symmetric])

function is_bucket_installed_loop ::
    "system \<Rightarrow> handler \<Rightarrow> string list \<Rightarrow> nat \<Rightarrow> bool \<Rightarrow> (error + bool) \<times> string list \<times> handler"
  and is_bucket_installed_alts ::
    "system \<Rightarrow> handler \<Rightarrow> string list \<Rightarrow> nat \<Rightarrow> bool \<Rightarrow> string list
       \<Rightarrow> (error + bool) \<times> string list \<times> handler"
where
  "is_bucket_installed_loop sys h bucket i is_inst =
     (if i < length bucket then
        (if str_contains '' | '' (bucket ! i) then
           is_bucket_installed_alts sys h bucket i is_inst (str_split '' | '' (bucket ! i))
         else
           (case installed_item sys h (bucket ! i) is_inst of
              (Inl e, h') \<Rightarrow> (Inl e, bucket, h')
            | (Inr is_inst', h') \<Rightarrow> is_bucket_installed_loop sys h' bucket (Suc i) is_inst'))
      else (Inr is_inst, bucket, h))"
| "is_bucket_installed_alts sys h bucket i is_inst [] =
     (case installed_item sys h (bucket ! i) is_inst of
        (Inl e, h') \<Rightarrow> (Inl e, bucket, h')
      | (Inr is_inst', h') \<Rightarrow> is_bucket_installed_loop sys h' bucket (Suc i) is_inst')"
| "is_bucket_installed_alts sys h bucket i is_inst (package # rest) =
     (case is_bucket_installed_loop sys h [package] 0 True of
        (Inl e, _, h') \<Rightarrow> (Inl e, bucket, h')
      | (Inr True, _, h') \<Rightarrow>
          (case installed_item sys h' package is_inst of
             (Inl e, h'') \<Rightarrow> (Inl e, remove1 (bucket ! i) bucket @ [package], h'')
           | (Inr is_inst', h'') \<Rightarrow>
               is_bucket_installed_loop sys h'' (remove1 (bucket ! i) bucket @ [package])
                 (Suc i) is_inst')
      | (Inr False, _, h') \<Rightarrow> is_bucket_installed_alts sys h' bucket i is_inst rest)"
  by pat_completeness auto
termination
  apply (relation "measure (\<lambda>x. case x of
          Inl (sys, h, bucket, i, f) \<Rightarrow> 2 * weight (drop i bucket)
        | Inr (sys, h, bucket, i, f, alts) \<Rightarrow> 2 * (weight (drop (Suc i) bucket) + weight alts) + 1)")
        apply simp
  subgoal for sys h bucket i is_inst using weight_alternation [of i bucket] by simp
  subgoal for sys h bucket i is_inst using weight_next [of i bucket] by simp
  subgoal by simp
  subgoal by (simp add: weight_def)
  subgoal for sys h bucket i is_inst package rest
    using weight_resolved [of i "bucket ! i" bucket package] by (simp add: weight_def)
  subgoal by (simp add: weight_def)
  done

definition is_bucket_installed ::
    "system \<Rightarrow> handler \<Rightarrow> string list \<Rightarrow> (error + bool) \<times> string list \<times> handler" where
  "is_bucket_installed sys h bucket = is_bucket_installed_loop sys h bucket 0 True"

function is_bucket_available_loop ::
    "system \<Rightarrow> handler \<Rightarrow> string list \<Rightarrow> nat \<Rightarrow> bool \<Rightarrow> (error + bool) \<times> string list \<times> handler"
  and is_bucket_available_alts ::
    "system \<Rightarrow> handler \<Rightarrow> string list \<Rightarrow> nat \<Rightarrow> bool \<Rightarrow> string list
       \<Rightarrow> (error + bool) \<times> string list \<times> handler"
where
  "is_bucket_available_loop sys h bucket i all_in_cache =
     (if i < length bucket then
        (if str_contains '' | '' (bucket ! i) then
           is_bucket_available_alts sys h bucket i all_in_cache (str_split '' | '' (bucket ! i))
         else
           (case available_item sys h (bucket ! i) all_in_cache of
              (Inl e, h') \<Rightarrow> (Inl e, bucket, h')
            | (Inr all_in_cache', h') \<Rightarrow>
                is_bucket_available_loop sys h' bucket (Suc i) all_in_cache'))
      else (Inr all_in_cache, bucket, h))"
| "is_bucket_available_alts sys h bucket i all_in_cache [] =
     (case available_item sys h (bucket ! i) all_in_cache of
        (Inl e, h') \<Rightarrow> (Inl e, bucket, h')
      | (Inr all_in_cache', h') \<Rightarrow> is_bucket_available_loop sys h' bucket (Suc i) all_in_cache')"
| "is_bucket_available_alts sys h bucket i all_in_cache (package # rest) =
     (case is_bucket_available_loop sys h [package] 0 True of
        (Inl e, _, h') \<Rightarrow> (Inl e, bucket, h')
      | (Inr True, _, h') \<Rightarrow>
          (case available_item sys h' package all_in_cache of
             (Inl e, h'') \<Rightarrow> (Inl e, remove1 (bucket ! i) bucket @ [package], h'')
           | (Inr all_in_cache', h'') \<Rightarrow>
               is_bucket_available_loop sys h'' (remove1 (bucket ! i) bucket @ [package])
                 (Suc i) all_in_cache')
      | (Inr False, _, h') \<Rightarrow> is_bucket_available_alts sys h' bucket i all_in_cache rest)"
  by pat_completeness auto
termination
  apply (relation "measure (\<lambda>x. case x of
          Inl (sys, h, bucket, i, f) \<Rightarrow> 2 * weight (drop i bucket)
        | Inr (sys, h, bucket, i, f, alts) \<Rightarrow> 2 * (weight (drop (Suc i) bucket) + weight alts) + 1)")
        apply simp
  subgoal for sys h bucket i all_in_cache using weight_alternation [of i bucket] by simp
  subgoal for sys h bucket i all_in_cache using weight_next [of i bucket] by simp
  subgoal by simp
  subgoal by (simp add: weight_def)
  subgoal for sys h bucket i all_in_cache package rest
    using weight_resolved [of i "bucket ! i" bucket package] by (simp add: weight_def)
  subgoal by (simp add: weight_def)
  done

definition is_bucket_available ::
    "system \<Rightarrow> handler \<Rightarrow> string list \<Rightarrow> (error + bool) \<times> string list \<times> handler" where
  "is_bucket_available sys h bucket = is_bucket_available_loop sys h bucket 0 True"

text \<open>
  \<^verbatim>\<open>is_bucket_uptodate\<close> tries the alternatives with \<^verbatim>\<open>is_bucket_available\<close>, so only
  its own loop is recursive.
\<close>

function is_bucket_uptodate_loop ::
    "system \<Rightarrow> handler \<Rightarrow> string list \<Rightarrow> nat \<Rightarrow> bool \<Rightarrow> (error + bool) \<times> string list \<times> handler"
  and is_bucket_uptodate_alts ::
    "system \<Rightarrow> handler \<Rightarrow> string list \<Rightarrow> nat \<Rightarrow> bool \<Rightarrow> string list
       \<Rightarrow> (error + bool) \<times> string list \<times> handler"
where
  "is_bucket_uptodate_loop sys h bucket i uptodate =
     (if i < length bucket then
        (if str_contains '' | '' (bucket ! i) then
           is_bucket_uptodate_alts sys h bucket i uptodate (str_split '' | '' (bucket ! i))
         else
           (case uptodate_item sys h (bucket ! i) uptodate of
              (Inl e, h') \<Rightarrow> (Inl e, bucket, h')
            | (Inr uptodate', h') \<Rightarrow> is_bucket_uptodate_loop sys h' bucket (Suc i) uptodate'))
      else (Inr uptodate, bucket, h))"
| "is_bucket_uptodate_alts sys h bucket i uptodate [] =
     (case uptodate_item sys h (bucket ! i) uptodate of
        (Inl e, h') \<Rightarrow> (Inl e, bucket, h')
      | (Inr uptodate', h') \<Rightarrow> is_bucket_uptodate_loop sys h' bucket (Suc i) uptodate')"
| "is_bucket_uptodate_alts sys h bucket i uptodate (package # rest) =
     (case is_bucket_available sys h [package] of
        (Inl e, _, h') \<Rightarrow> (Inl e, bucket, h')
      | (Inr True, _, h') \<Rightarrow>
          (case uptodate_item sys h' package uptodate of
             (Inl e, h'') \<Rightarrow> (Inl e, remove1 (bucket ! i) bucket @ [package], h'')
           | (Inr uptodate', h'') \<Rightarrow>
               is_bucket_uptodate_loop sys h'' (remove1 (bucket ! i) bucket @ [package])
                 (Suc i) uptodate')
      | (Inr False, _, h') \<Rightarrow> is_bucket_uptodate_alts sys h' bucket i uptodate rest)"
  by pat_completeness auto
termination
  apply (relation "measure (\<lambda>x. case x of
          Inl (sys, h, bucket, i, f) \<Rightarrow> 2 * weight (drop i bucket)
        | Inr (sys, h, bucket, i, f, alts) \<Rightarrow> 2 * (weight (drop (Suc i) bucket) + weight alts) + 1)")
        apply simp
  subgoal for sys h bucket i uptodate using weight_alternation [of i bucket] by simp
  subgoal for sys h bucket i uptodate using weight_next [of i bucket] by simp
  subgoal by simp
  subgoal for sys h bucket i uptodate package rest
    using weight_resolved [of i "bucket ! i" bucket package] by (simp add: weight_def)
  subgoal by (simp add: weight_def)
  done

definition is_bucket_uptodate ::
    "system \<Rightarrow> handler \<Rightarrow> string list \<Rightarrow> (error + bool) \<times> string list \<times> handler" where
  "is_bucket_uptodate sys h bucket = is_bucket_uptodate_loop sys h bucket 0 True"

declare is_bucket_installed_loop.simps [simp del]
declare is_bucket_available_loop.simps [simp del]
declare is_bucket_uptodate_loop.simps [simp del]

section \<open>The transaction\<close>

text \<open>
  The package manager is a black box to the handler. What it does when called is a
  parameter of the model: the outcome of the \<open>k\<close>-th \<^verbatim>\<open>cache.open()\<close> (opened,
  SystemError because the database is locked, or another exception), the packages an
  opened cache then shows, what \<^verbatim>\<open>add_foreign_arch\<close> of \<^verbatim>\<open>umake.tools\<close> returns,
  whether \<^verbatim>\<open>cache.update()\<close> and the marking of a package raise, and how a commit
  runs: the calls it makes on the install progress object (\<^verbatim>\<open>error\<close>,
  \<^verbatim>\<open>finish_update\<close>), the exception it raises itself, and the text the forked child
  writes to the exchange file. \<open>exception_text\<close> is \<^verbatim>\<open>str(e)\<close> of an exception
  without an explicit message. The progress reports (\<^verbatim>\<open>pulse\<close>,
  \<^verbatim>\<open>status_change\<close>) only forward numbers to the caller's progress callback and are
  left out, as is the privilege switch of \<^verbatim>\<open>as_root()\<close>.

  The record also holds the one fact of the interpreter the transaction depends on:
  \<open>recursion_room pm k\<close> is the number of nested calls of
  \<^verbatim>\<open>_force_reload_apt_cache\<close> the call stack has room for when the handler enters that
  function after \<open>k\<close> attempts to open the cache. It is the recursion limit (1000 unless
  changed) less the frames in use at that place.
\<close>

datatype open_result = Opened | Locked | OpenFailed error

datatype progress_call = DpkgError string | FinishUpdate

record package_manager =
  database :: "string \<rightharpoonup> package"
  open_outcome :: "nat \<Rightarrow> open_result"
  recursion_room :: "nat \<Rightarrow> nat"
  add_foreign_arch :: "string \<Rightarrow> error + bool"
  update_error :: "error option"
  mark_error :: "string \<Rightarrow> string option"
  key_error_text :: "string \<Rightarrow> string"
  commit_calls :: "progress_call list"
  commit_error :: "error option"
  apply_output :: string
  exception_text :: "error \<Rightarrow> string"

text \<open>
  \<^verbatim>\<open>_force_reload_apt_cache\<close> calls itself after a sleep of one second whenever
  \<^verbatim>\<open>cache.open()\<close> raises SystemError. Every retry is a call nested in the one
  before, so the recursion limit bounds the retries: the call for which the stack has no
  room left raises RecursionError, which \<^verbatim>\<open>except SystemError\<close> does not catch and
  which therefore leaves all the nested calls. \<open>force_reload_nested\<close> is the function
  with the room left on the stack as an argument. The exception is raised on entering
  the call that has no room; were it raised inside \<^verbatim>\<open>cache.open()\<close> of the last
  call that has, it would leave the function the same way.
\<close>

fun force_reload_nested ::
    "package_manager \<Rightarrow> nat \<Rightarrow> handler \<Rightarrow> (error + unit) \<times> handler" where
  "force_reload_nested pm 0 h = (Inl RecursionError, h)"
| "force_reload_nested pm (Suc room) h =
     (case open_outcome pm (opens h) of
        Opened \<Rightarrow> (Inr (), h\<lparr>cache := database pm, opens := Suc (opens h)\<rparr>)
      | Locked \<Rightarrow> force_reload_nested pm room (h\<lparr>opens := Suc (opens h), slept := slept h + 1\<rparr>)
      | OpenFailed e \<Rightarrow> (Inl e, h\<lparr>opens := Suc (opens h)\<rparr>))"

definition force_reload_apt_cache ::
    "package_manager \<Rightarrow> handler \<Rightarrow> (error + unit) \<times> handler" where
  "force_reload_apt_cache pm h = force_reload_nested pm (recursion_room pm (opens h)) h"

text \<open>
  The first loop of \<^verbatim>\<open>_really_install_bucket\<close>:
  \<^verbatim>\<open>need_cache_reload = need_cache_reload or add_foreign_arch(arch)\<close>, where
  \<^verbatim>\<open>or\<close> does not evaluate its right operand once the left one is true.
\<close>

fun need_cache_reload ::
    "package_manager \<Rightarrow> string list \<Rightarrow> bool \<Rightarrow> handler \<Rightarrow> (error + bool) \<times> handler" where
  "need_cache_reload pm [] need h = (Inr need, h)"
| "need_cache_reload pm (pkg_name # rest) need h =
     (if str_contains '':'' pkg_name then
        (if need then need_cache_reload pm rest True h
         else
           (let arch = last (str_split '':'' pkg_name);
                h' = h\<lparr>calls := calls h @ [AddForeignArch arch]\<rparr>
            in case add_foreign_arch pm arch of
                 Inl e \<Rightarrow> (Inl e, h')
               | Inr added \<Rightarrow> need_cache_reload pm rest added h'))
      else need_cache_reload pm rest need h)"

text \<open>The block run when an architecture was added: reload, update, reload.\<close>

definition reload_for_new_arch ::
    "package_manager \<Rightarrow> handler \<Rightarrow> (error + unit) \<times> handler" where
  "reload_for_new_arch pm h =
     (case force_reload_apt_cache pm h of
        (Inl e, h1) \<Rightarrow> (Inl e, h1)
      | (Inr _, h1) \<Rightarrow>
          (let h2 = h1\<lparr>calls := calls h1 @ [Update]\<rparr>
           in case update_error pm of
                Some e \<Rightarrow> (Inl e, h2)
              | None \<Rightarrow> force_reload_apt_cache pm h2))"

text \<open>
  Marking one package. A package missing from the cache (KeyError) and a marking that
  raises both end in \<^verbatim>\<open>BaseException("Can't mark for install ...")\<close>.
\<close>

definition cannot_mark :: "string \<Rightarrow> string \<Rightarrow> error" where
  "cannot_mark pkg_name msg = Raised (''Can't mark for install '' @ pkg_name @ '': '' @ msg)"

definition mark :: "package_manager \<Rightarrow> handler \<Rightarrow> string \<Rightarrow> (error + unit) \<times> handler" where
  "mark pm h pkg_name =
     (case cache h pkg_name of
        None \<Rightarrow> (Inl (cannot_mark pkg_name (key_error_text pm pkg_name)), h)
      | Some pkg \<Rightarrow>
          (let h' = h\<lparr>calls := calls h @
                       [if is_installed pkg \<and> is_upgradable pkg then MarkUpgrade pkg_name
                        else MarkInstall pkg_name]\<rparr>
           in case mark_error pm pkg_name of
                Some msg \<Rightarrow> (Inl (cannot_mark pkg_name msg), h')
              | None \<Rightarrow> (Inr (), h')))"

fun mark_bucket ::
    "system \<Rightarrow> package_manager \<Rightarrow> string list \<Rightarrow> handler \<Rightarrow> (error + unit) \<times> handler" where
  "mark_bucket sys pm [] h = (Inr (), h)"
| "mark_bucket sys pm (pkg_name # rest) h =
     (case native_name sys pkg_name of
        Inl e \<Rightarrow> (Inl e, h)
      | Inr name \<Rightarrow>
          (case mark pm h name of
             (Inl e, h') \<Rightarrow> (Inl e, h')
           | (Inr _, h') \<Rightarrow> mark_bucket sys pm rest h'))"

text \<open>
  The calls a commit makes on \<^verbatim>\<open>_InstallProgress\<close>: \<^verbatim>\<open>finish_update\<close> reloads the
  cache; \<^verbatim>\<open>error\<close> reloads it and raises \<^verbatim>\<open>BaseException(msg)\<close>, which ends the
  commit.
\<close>

fun install_progress ::
    "package_manager \<Rightarrow> progress_call list \<Rightarrow> handler \<Rightarrow> (error + unit) \<times> handler" where
  "install_progress pm [] h = (Inr (), h)"
| "install_progress pm (FinishUpdate # rest) h =
     (case force_reload_apt_cache pm h of
        (Inl e, h') \<Rightarrow> (Inl e, h')
      | (Inr _, h') \<Rightarrow> install_progress pm rest h')"
| "install_progress pm (DpkgError msg # rest) h =
     (case force_reload_apt_cache pm h of
        (Inl e, h') \<Rightarrow> (Inl e, h')
      | (Inr _, h') \<Rightarrow> (Inl (Raised msg), h'))"

text \<open>
  \<^verbatim>\<open>self.cache.commit(...)\<close>: the child's output goes to the exchange file, which the
  child opens without creating it.
\<close>

definition commit :: "package_manager \<Rightarrow> handler \<Rightarrow> (error + unit) \<times> handler" where
  "commit pm h =
     (let h1 = h\<lparr>calls := calls h @ [Commit],
                 apt_fd := map_option (\<lambda>_. apply_output pm) (apt_fd h)\<rparr>
      in case install_progress pm (commit_calls pm) h1 of
           (Inl e, h2) \<Rightarrow> (Inl e, h2)
         | (Inr _, h2) \<Rightarrow>
             (case commit_error pm of
                Some e \<Rightarrow> (Inl e, h2)
              | None \<Rightarrow> (Inr (), h2)))"

definition really_install_bucket ::
    "system \<Rightarrow> package_manager \<Rightarrow> handler \<Rightarrow> string list
       \<Rightarrow> (error + bool) \<times> string list \<times> handler" where
  "really_install_bucket sys pm h bucket =
     (case is_bucket_uptodate sys (h\<lparr>apt_fd := Some []\<rparr>) bucket of
        (Inl e, b, h1) \<Rightarrow> (Inl e, b, h1)
      | (Inr True, b, h1) \<Rightarrow> (Inr True, b, h1)
      | (Inr False, b, h1) \<Rightarrow>
          (case need_cache_reload pm b False h1 of
             (Inl e, h2) \<Rightarrow> (Inl e, b, h2)
           | (Inr need, h2) \<Rightarrow>
               (case (if need then reload_for_new_arch pm h2 else (Inr (), h2)) of
                  (Inl e, h3) \<Rightarrow> (Inl e, b, h3)
                | (Inr _, h3) \<Rightarrow>
                    (case mark_bucket sys pm b h3 of
                       (Inl e, h4) \<Rightarrow> (Inl e, b, h4)
                     | (Inr _, h4) \<Rightarrow>
                         (case commit pm h4 of
                            (Inl e, h5) \<Rightarrow> (Inl e, b, h5)
                          | (Inr _, h5) \<Rightarrow> (Inr True, b, h5))))))"

section \<open>Submission and completion\<close>

definition str_exception :: "package_manager \<Rightarrow> error \<Rightarrow> string" where
  "str_exception pm e = (case e of Raised msg \<Rightarrow> msg | _ \<Rightarrow> exception_text pm e)"

text \<open>
  \<^verbatim>\<open>_on_done\<close>: the result is built, the exchange file is removed (which raises when
  the file is gone) and the completion callback is called.
\<close>

definition on_done ::
    "package_manager \<Rightarrow> (error + bool) \<Rightarrow> string list \<Rightarrow> handler \<Rightarrow> (error + unit) \<times> handler" where
  "on_done pm outcome bucket h =
     (let result =
            (case outcome of
               Inl e \<Rightarrow>
                 (let error_message = str_exception pm e
                  in RequirementsResult bucket
                       (Some (case apt_fd h of
                                None \<Rightarrow> error_message
                              | Some subprocess_content \<Rightarrow>
                                  if subprocess_content \<noteq> [] then
                                    error_message @ [newline] @ ''Subprocess output: ''
                                      @ subprocess_content
                                  else error_message)))
             | Inr _ \<Rightarrow> RequirementsResult bucket None)
      in case apt_fd h of
           None \<Rightarrow> (Inl FileNotFoundError, h)
         | Some _ \<Rightarrow> (Inr (), h\<lparr>apt_fd := None, calls := calls h @ [Installed result]\<rparr>))"

text \<open>
  \<^verbatim>\<open>install_bucket\<close> evaluates the bucket on the caller's thread and then submits the
  task; an exception of the evaluation leaves the function before anything is submitted.
\<close>

definition install_bucket ::
    "system \<Rightarrow> handler \<Rightarrow> string list \<Rightarrow> (error + bool) \<times> string list \<times> handler" where
  "install_bucket sys h bucket =
     (case is_bucket_uptodate sys h bucket of
        (Inl e, b, h') \<Rightarrow> (Inl e, b, h')
      | (Inr uptodate, b, h') \<Rightarrow> (Inr (\<not> uptodate), b, h'\<lparr>queue := queue h' @ [b]\<rparr>))"

text \<open>
  One task on the executor's thread: \<^verbatim>\<open>_really_install_bucket\<close>, then the done
  callback. The executor logs and drops an exception raised by a done callback, so the
  task never hands an exception to anyone: it ends in a handler state.
\<close>

definition run_task ::
    "system \<Rightarrow> package_manager \<Rightarrow> handler \<Rightarrow> string list \<Rightarrow> handler" where
  "run_task sys pm h bucket =
     (case really_install_bucket sys pm h bucket of
        (outcome, b, h') \<Rightarrow> snd (on_done pm outcome b h'))"

definition worker :: "system \<Rightarrow> package_manager \<Rightarrow> handler \<Rightarrow> handler" where
  "worker sys pm h =
     (case queue h of
        [] \<Rightarrow> h
      | bucket # rest \<Rightarrow> run_task sys pm (h\<lparr>queue := rest\<rparr>) bucket)"

text \<open>The results the completion callback has been called with, in order.\<close>

fun completions :: "call list \<Rightarrow> requirements_result list" where
  "completions [] = []"
| "completions (Installed r # cs) = r # completions cs"
| "completions (c # cs) = completions cs"

section \<open>Concrete hosts\<close>

text \<open>
  \<^verbatim>\<open>__init__\<close>: a handler with a freshly opened cache and no cached banner.
\<close>

definition init_handler :: "(string \<rightharpoonup> package) \<Rightarrow> handler" where
  "init_handler c =
     \<lparr>cache = c, jre_installed_version = None, jdk_installed_version = None,
      apt_fd = None, queue = [], opens = 0, slept = 0, calls = []\<rparr>"

text \<open>An amd64 host without foreign architectures and without Java.\<close>

definition host_amd64 :: system where
  "host_amd64 =
     \<lparr>current_arch = ''amd64'', foreign_archs = [], java_version = Missing,
      javac_version = Missing\<rparr>"

text \<open>What \<^verbatim>\<open>java -version\<close> of an OpenJDK 11 prints.\<close>

definition java11_banner :: string where
  "java11_banner =
     ''openjdk version '' @ [dquote] @ ''11.0.2'' @ [dquote] @ '' 2019-01-15'' @ [newline]
       @ ''OpenJDK Runtime Environment 18.9 (build 11.0.2+9)'' @ [newline]"

text \<open>A package that is installed and has no upgrade pending.\<close>

definition installed_pkg :: package where
  "installed_pkg = \<lparr>is_installed = True, is_upgradable = False\<rparr>"

text \<open>
  A package manager where every call succeeds at once: the cache opens, no architecture
  is new, nothing raises, and a commit calls \<^verbatim>\<open>finish_update\<close> and writes nothing.
  The stack has room for a thousand nested calls.
\<close>

definition idle_package_manager :: package_manager where
  "idle_package_manager =
     \<lparr>database = Map.empty, open_outcome = (\<lambda>k. Opened), recursion_room = (\<lambda>k. 1000),
      add_foreign_arch = (\<lambda>arch. Inr False),
      update_error = None, mark_error = (\<lambda>name. None), key_error_text = (\<lambda>name. name),
      commit_calls = [FinishUpdate], commit_error = None, apply_output = [],
      exception_text = (\<lambda>e. [])\<rparr>"



text \<open>What \<^verbatim>\<open>javac -version\<close> of a JDK 11 prints.\<close>

definition javac11_banner :: string where
  "javac11_banner = ''javac 11.0.2'' @ [newline]"

text \<open>
  The requirements of the Fritzing installer (\<^verbatim>\<open>umake/frameworks/electronics.py\<close>), on
  a host where all of them but \<^verbatim>\<open>libssl1.0\<close> are installed.
\<close>

definition fritzing_cache :: "string \<rightharpoonup> package" where
  "fritzing_cache =
     [''libssl1.1'' \<mapsto> installed_pkg, ''libqt5serialport5'' \<mapsto> installed_pkg,
      ''libqt5sql5'' \<mapsto> installed_pkg, ''libqt5xml5'' \<mapsto> installed_pkg]"

definition fritzing_bucket :: "string list" where
  "fritzing_bucket =
     [''libssl1.1 | libssl1.0'', ''libqt5serialport5'', ''libqt5sql5'', ''libqt5xml5'']"

section \<open>Notions used in the properties\<close>

text \<open>An evaluator writes the two cached banners and nothing else of the handler.\<close>

definition evaluated :: "handler \<Rightarrow> handler \<Rightarrow> bool" where
  "evaluated h h' \<longleftrightarrow>
     cache h' = cache h \<and> apt_fd h' = apt_fd h \<and> queue h' = queue h
     \<and> opens h' = opens h \<and> slept h' = slept h \<and> calls h' = calls h"

text \<open>
  Before the commit, a task leaves the exchange file and the queue alone, and calls
  neither the commit nor the completion callback.
\<close>

definition prepared :: "handler \<Rightarrow> handler \<Rightarrow> bool" where
  "prepared h h' \<longleftrightarrow>
     apt_fd h' = apt_fd h \<and> queue h' = queue h
     \<and> (\<exists>cs. calls h' = calls h @ cs \<and> Commit \<notin> set cs \<and> completions cs = [])"

text \<open>
  The package a specifier names is up to date: in the cache, installed, no upgrade
  pending.
\<close>

definition up_to_date :: "handler \<Rightarrow> string \<Rightarrow> bool" where
  "up_to_date h name \<longleftrightarrow>
     (case cache h name of None \<Rightarrow> False | Some p \<Rightarrow> is_installed p \<and> \<not> is_upgradable p)"

text \<open>A specifier that is one name, or a name and an architecture, and no Java requirement.\<close>

definition plain :: "string \<Rightarrow> bool" where
  "plain s \<longleftrightarrow>
     \<not> str_contains '' | '' s \<and> \<not> str_contains ''openjdk'' s \<and> length (str_split '':'' s) \<le> 2"

text \<open>
  The bucket \<open>b'\<close> is \<open>pre\<close>, then \<open>post\<close>, then \<open>p\<close>: \<open>p\<close> is its last element, the
  first specifier of \<open>post\<close> stands where the alternation stood, and the list differs from
  the resolution in place, \<open>pre @ p # post\<close>, unless \<open>post\<close> consists of copies of \<open>p\<close>.
\<close>

definition resolved_at_end :: "string list \<Rightarrow> string list \<Rightarrow> string \<Rightarrow> string list \<Rightarrow> bool" where
  "resolved_at_end pre post p b' \<longleftrightarrow>
     b' = pre @ post @ [p]
     \<and> b' ! (length pre + length post) = p
     \<and> (post \<noteq> [] \<longrightarrow> b' ! length pre = hd post)
     \<and> ((\<exists>x\<in>set post. x \<noteq> p) \<longrightarrow> b' \<noteq> pre @ p # post)"

section \<open>Properties\<close>

subsection \<open>A bucket of one specifier\<close>

lemmas regex_defs = openjdk_match_def is_digit_def is_word_def is_digit_or_dot_def
  java_version_match_def javac_version_search_def dquote_def newline_def

lemma uptodate_single:
  "\<not> str_contains '' | '' s \<Longrightarrow>
   is_bucket_uptodate sys h [s] =
     (case uptodate_item sys h s True of
        (Inl e, h') \<Rightarrow> (Inl e, [s], h')
      | (Inr f, h') \<Rightarrow> (Inr f, [s], h'))"
  by (simp add: is_bucket_uptodate_def is_bucket_uptodate_loop.simps split: prod.splits sum.splits)

lemma installed_single:
  "\<not> str_contains '' | '' s \<Longrightarrow>
   is_bucket_installed sys h [s] =
     (case installed_item sys h s True of
        (Inl e, h') \<Rightarrow> (Inl e, [s], h')
      | (Inr f, h') \<Rightarrow> (Inr f, [s], h'))"
  by (simp add: is_bucket_installed_def is_bucket_installed_loop.simps split: prod.splits sum.splits)

lemma available_single:
  "\<not> str_contains '' | '' s \<Longrightarrow>
   is_bucket_available sys h [s] =
     (case available_item sys h s True of
        (Inl e, h') \<Rightarrow> (Inl e, [s], h')
      | (Inr f, h') \<Rightarrow> (Inr f, [s], h'))"
  by (simp add: is_bucket_available_def is_bucket_available_loop.simps split: prod.splits sum.splits)

subsection \<open>The Java equivalence\<close>

text \<open>
  C6. \<^verbatim>\<open>check_java_equiv\<close> compares the installed version with the required one as
  Python strings, character by character: with Java 11.0.2 installed, the requirements
  \<^verbatim>\<open>openjdk-9-jre\<close> and \<^verbatim>\<open>openjdk-8-jre\<close> are reported as not satisfied
  (\<open>''1''\<close> sorts before \<open>''9''\<close> and \<open>''8''\<close>), while \<^verbatim>\<open>openjdk-11-jre\<close> is
  satisfied. A numeric comparison of the components would accept all three.
\<close>

theorem java_equiv_compares_strings:
  "fst (check_java_equiv (host_amd64\<lparr>java_version := Output java11_banner\<rparr>)
          (init_handler Map.empty) ''openjdk-9-jre'') = Inr False
   \<and> fst (check_java_equiv (host_amd64\<lparr>java_version := Output java11_banner\<rparr>)
          (init_handler Map.empty) ''openjdk-8-jre'') = Inr False
   \<and> fst (check_java_equiv (host_amd64\<lparr>java_version := Output java11_banner\<rparr>)
          (init_handler Map.empty) ''openjdk-11-jre'') = Inr True"
  by (simp add: check_java_equiv_def regex_defs installed_banner_def init_handler_def
      host_amd64_def java11_banner_def str_ge_def)

text \<open>
  C9. \<^verbatim>\<open>check_java_equiv\<close> raises TypeError on every specifier that contains
  \<^verbatim>\<open>openjdk\<close> and that the pattern \<^verbatim>\<open>openjdk-(\d+)-(j\w\w)\<close> does not match
  anywhere. For such a specifier without alternation and architecture, the three
  evaluators raise with it instead of returning a boolean: \<^verbatim>\<open>is_bucket_uptodate\<close>
  always, \<^verbatim>\<open>is_bucket_available\<close> when the cache does not have the name, and
  \<^verbatim>\<open>is_bucket_installed\<close> when the package is not installed.
\<close>

theorem check_java_equiv_partial:
  assumes "str_contains ''openjdk'' s" and "openjdk_search s = None"
  shows "check_java_equiv sys h s = (Inl TypeError, h)
    \<and> (\<not> str_contains '' | '' s \<and> \<not> str_contains '':'' s \<longrightarrow>
         is_bucket_uptodate sys h [s] = (Inl TypeError, [s], h)
       \<and> (cache h s = None \<longrightarrow> is_bucket_available sys h [s] = (Inl TypeError, [s], h))
       \<and> ((case cache h s of None \<Rightarrow> True | Some p \<Rightarrow> \<not> is_installed p) \<longrightarrow>
            is_bucket_installed sys h [s] = (Inl TypeError, [s], h)))"
proof -
  have java: "check_java_equiv sys h s = (Inl TypeError, h)"
    using assms(2) by (simp add: check_java_equiv_def)
  show ?thesis
  proof (intro conjI impI)
    show "check_java_equiv sys h s = (Inl TypeError, h)" by (rule java)
  next
    assume plain: "\<not> str_contains '' | '' s \<and> \<not> str_contains '':'' s"
    then show "is_bucket_uptodate sys h [s] = (Inl TypeError, [s], h)"
      using assms(1) java by (simp add: uptodate_single uptodate_item_def native_name_def Let_def)
  next
    assume plain: "\<not> str_contains '' | '' s \<and> \<not> str_contains '':'' s"
      and absent: "cache h s = None"
    then show "is_bucket_available sys h [s] = (Inl TypeError, [s], h)"
      using assms(1) java by (simp add: available_single available_item_def)
  next
    assume plain: "\<not> str_contains '' | '' s \<and> \<not> str_contains '':'' s"
      and absent: "case cache h s of None \<Rightarrow> True | Some p \<Rightarrow> \<not> is_installed p"
    then show "is_bucket_installed sys h [s] = (Inl TypeError, [s], h)"
      using assms(1) java by (simp add: installed_single installed_item_def native_name_def)
  qed
qed

text \<open>The specifiers \<^verbatim>\<open>openjdk-11\<close> and \<^verbatim>\<open>libopenjdk\<close> on a host with an empty cache.\<close>

theorem check_java_equiv_partial_witness:
  "str_contains ''openjdk'' ''openjdk-11'' \<and> openjdk_search ''openjdk-11'' = None
   \<and> str_contains ''openjdk'' ''libopenjdk'' \<and> openjdk_search ''libopenjdk'' = None
   \<and> check_java_equiv host_amd64 (init_handler Map.empty) ''openjdk-11''
       = (Inl TypeError, init_handler Map.empty)
   \<and> check_java_equiv host_amd64 (init_handler Map.empty) ''libopenjdk''
       = (Inl TypeError, init_handler Map.empty)
   \<and> is_bucket_uptodate host_amd64 (init_handler Map.empty) [''openjdk-11'']
       = (Inl TypeError, [''openjdk-11''], init_handler Map.empty)
   \<and> is_bucket_available host_amd64 (init_handler Map.empty) [''openjdk-11'']
       = (Inl TypeError, [''openjdk-11''], init_handler Map.empty)
   \<and> is_bucket_installed host_amd64 (init_handler Map.empty) [''openjdk-11'']
       = (Inl TypeError, [''openjdk-11''], init_handler Map.empty)"
proof -
  have a: "str_contains ''openjdk'' ''openjdk-11''" by simp
  have b: "openjdk_search ''openjdk-11'' = None" by (simp add: regex_defs)
  have c: "str_contains ''openjdk'' ''libopenjdk''" by simp
  have d: "openjdk_search ''libopenjdk'' = None" by (simp add: regex_defs)
  have e: "\<not> str_contains '' | '' ''openjdk-11'' \<and> \<not> str_contains '':'' ''openjdk-11''" by simp
  have f: "cache (init_handler Map.empty) ''openjdk-11'' = None" by (simp add: init_handler_def)
  show ?thesis
    using a b c d e f
      check_java_equiv_partial [OF a b, of host_amd64 "init_handler Map.empty"]
      check_java_equiv_partial [OF c d, of host_amd64 "init_handler Map.empty"]
    by simp
qed

subsection \<open>Architecture-qualified specifiers\<close>

text \<open>
  C5. On an amd64 host with no foreign architecture and a cache without the package,
  \<^verbatim>\<open>is_bucket_available\<close> reports the bucket \<^verbatim>\<open>["x:amd64"]\<close> as available, and the
  bucket \<^verbatim>\<open>["x"]\<close> as not available: the specifier with the native architecture is not
  evaluated as the bare name. The first test of the architecture branch fails because
  the bare name is not in the cache, and the second one takes the native architecture
  for a foreign architecture that is not enabled.
\<close>

theorem native_arch_reported_available:
  "is_bucket_available host_amd64 (init_handler Map.empty) [''x:amd64'']
     = (Inr True, [''x:amd64''], init_handler Map.empty)
   \<and> is_bucket_available host_amd64 (init_handler Map.empty) [''x'']
     = (Inr False, [''x''], init_handler Map.empty)"
  by (simp add: available_single available_item_def host_amd64_def init_handler_def)

subsection \<open>Alternations\<close>

lemma no_bar_split: "CHR ''|'' \<notin> set b \<Longrightarrow> str_split '' | '' b = [b]"
proof (induction b)
  case Nil
  then show ?case by simp
next
  case (Cons c cs)
  then have "\<not> starts_with '' | '' (c # cs)" by (cases cs) auto
  with Cons show ?case by simp
qed

lemma no_bar_contains: "CHR ''|'' \<notin> set b \<Longrightarrow> \<not> str_contains '' | '' b"
proof (induction b)
  case Nil
  then show ?case by simp
next
  case (Cons c cs)
  then have "\<not> starts_with '' | '' (c # cs)" by (cases cs) auto
  with Cons show ?case by simp
qed

lemma alternation_contains: "str_contains '' | '' (a @ '' | '' @ b)"
  by (induction a) auto

lemma alternation_split:
  "CHR ''|'' \<notin> set a \<Longrightarrow> CHR ''|'' \<notin> set b \<Longrightarrow> str_split '' | '' (a @ '' | '' @ b) = [a, b]"
proof (induction a)
  case Nil
  then show ?case by (simp add: no_bar_split)
next
  case (Cons c cs)
  then have "\<not> starts_with '' | '' (c # cs @ '' | '' @ b)" by (cases cs) auto
  with Cons show ?case by simp
qed

lemma installed_bucket_single: "\<not> str_contains '' | '' s \<Longrightarrow> fst (snd (is_bucket_installed sys h [s])) = [s]"
  by (simp add: installed_single split: prod.splits sum.splits)

lemma available_bucket_single: "\<not> str_contains '' | '' s \<Longrightarrow> fst (snd (is_bucket_available sys h [s])) = [s]"
  by (simp add: available_single split: prod.splits sum.splits)

lemma uptodate_bucket_single: "\<not> str_contains '' | '' s \<Longrightarrow> fst (snd (is_bucket_uptodate sys h [s])) = [s]"
  by (simp add: uptodate_single split: prod.splits sum.splits)

lemma installed_two_alternatives:
  assumes "is_bucket_installed sys h [a] = (Inr False, ba, h1)"
    and "is_bucket_installed sys h1 [b] = (Inr True, bb, h2)"
    and "str_contains '' | '' alt" and "str_split '' | '' alt = [a, b]"
  shows "fst (snd (is_bucket_installed sys h [alt])) = [b]"
  using assms
  by (simp add: is_bucket_installed_def is_bucket_installed_loop.simps [of _ _ "[alt]"]
      is_bucket_installed_loop.simps [of _ _ "[b]" "Suc 0"] split: prod.splits sum.splits)

lemma available_two_alternatives:
  assumes "is_bucket_available sys h [a] = (Inr False, ba, h1)"
    and "is_bucket_available sys h1 [b] = (Inr True, bb, h2)"
    and "str_contains '' | '' alt" and "str_split '' | '' alt = [a, b]"
  shows "fst (snd (is_bucket_available sys h [alt])) = [b]"
  using assms
  by (simp add: is_bucket_available_def is_bucket_available_loop.simps [of _ _ "[alt]"]
      is_bucket_available_loop.simps [of _ _ "[b]" "Suc 0"] split: prod.splits sum.splits)

lemma uptodate_two_alternatives:
  assumes "is_bucket_available sys h [a] = (Inr False, ba, h1)"
    and "is_bucket_available sys h1 [b] = (Inr True, bb, h2)"
    and "str_contains '' | '' alt" and "str_split '' | '' alt = [a, b]"
  shows "fst (snd (is_bucket_uptodate sys h [alt])) = [b]"
  using assms
  by (simp add: is_bucket_uptodate_def is_bucket_uptodate_loop.simps [of _ _ "[alt]"]
      is_bucket_uptodate_loop.simps [of _ _ "[b]" "Suc 0"] split: prod.splits sum.splits)

text \<open>
  C4. A bucket of the single alternation \<^verbatim>\<open>"a | b"\<close> whose first alternative fails
  the evaluator's presence test and whose second one passes it (the test is
  \<^verbatim>\<open>is_bucket_installed\<close> for \<^verbatim>\<open>is_bucket_installed\<close>, and \<^verbatim>\<open>is_bucket_available\<close>
  for the other two evaluators) is \<^verbatim>\<open>["b"]\<close> after the evaluation, whatever the
  evaluation then returns; and an evaluation of \<^verbatim>\<open>["b"]\<close>, from any state of the
  handler, leaves the bucket as it is. The names \<open>a\<close> and \<open>b\<close> are any strings
  without a bar.
\<close>

theorem alternation_resolved_once:
  assumes "CHR ''|'' \<notin> set a" and "CHR ''|'' \<notin> set b"
  shows "(is_bucket_installed sys h [a] = (Inr False, ba, h1)
            \<and> is_bucket_installed sys h1 [b] = (Inr True, bb, h2)
          \<longrightarrow> fst (snd (is_bucket_installed sys h [a @ '' | '' @ b])) = [b])
       \<and> (is_bucket_available sys h [a] = (Inr False, ba, h1)
            \<and> is_bucket_available sys h1 [b] = (Inr True, bb, h2)
          \<longrightarrow> fst (snd (is_bucket_available sys h [a @ '' | '' @ b])) = [b]
            \<and> fst (snd (is_bucket_uptodate sys h [a @ '' | '' @ b])) = [b])
       \<and> (\<forall>h'. fst (snd (is_bucket_installed sys h' [b])) = [b]
              \<and> fst (snd (is_bucket_available sys h' [b])) = [b]
              \<and> fst (snd (is_bucket_uptodate sys h' [b])) = [b])"
proof -
  let ?alt = "a @ '' | '' @ b"
  have alt: "str_contains '' | '' ?alt" by (rule alternation_contains)
  have split: "str_split '' | '' ?alt = [a, b]" using assms by (rule alternation_split)
  have plain: "\<not> str_contains '' | '' b" using assms(2) by (rule no_bar_contains)
  show ?thesis
  proof (intro conjI impI allI)
    assume "is_bucket_installed sys h [a] = (Inr False, ba, h1)
            \<and> is_bucket_installed sys h1 [b] = (Inr True, bb, h2)"
    then show "fst (snd (is_bucket_installed sys h [?alt])) = [b]"
      using installed_two_alternatives [OF _ _ alt split] by blast
  next
    assume "is_bucket_available sys h [a] = (Inr False, ba, h1)
            \<and> is_bucket_available sys h1 [b] = (Inr True, bb, h2)"
    then show "fst (snd (is_bucket_available sys h [?alt])) = [b]"
      using available_two_alternatives [OF _ _ alt split] by blast
  next
    assume "is_bucket_available sys h [a] = (Inr False, ba, h1)
            \<and> is_bucket_available sys h1 [b] = (Inr True, bb, h2)"
    then show "fst (snd (is_bucket_uptodate sys h [?alt])) = [b]"
      using uptodate_two_alternatives [OF _ _ alt split] by blast
  next
    fix h'
    show "fst (snd (is_bucket_installed sys h' [b])) = [b]"
      using plain by (rule installed_bucket_single)
    show "fst (snd (is_bucket_available sys h' [b])) = [b]"
      using plain by (rule available_bucket_single)
    show "fst (snd (is_bucket_uptodate sys h' [b])) = [b]"
      using plain by (rule uptodate_bucket_single)
  qed
qed

text \<open>The bucket \<^verbatim>\<open>["a | b"]\<close> on a host where only \<^verbatim>\<open>b\<close> is in the cache, installed.\<close>

theorem alternation_resolved_once_witness:
  "CHR ''|'' \<notin> set ''a'' \<and> CHR ''|'' \<notin> set ''b''
   \<and> is_bucket_installed host_amd64 (init_handler [''b'' \<mapsto> installed_pkg]) [''a'']
       = (Inr False, [''a''], init_handler [''b'' \<mapsto> installed_pkg])
   \<and> is_bucket_installed host_amd64 (init_handler [''b'' \<mapsto> installed_pkg]) [''b'']
       = (Inr True, [''b''], init_handler [''b'' \<mapsto> installed_pkg])
   \<and> is_bucket_available host_amd64 (init_handler [''b'' \<mapsto> installed_pkg]) [''a'']
       = (Inr False, [''a''], init_handler [''b'' \<mapsto> installed_pkg])
   \<and> is_bucket_available host_amd64 (init_handler [''b'' \<mapsto> installed_pkg]) [''b'']
       = (Inr True, [''b''], init_handler [''b'' \<mapsto> installed_pkg])
   \<and> fst (snd (is_bucket_installed host_amd64 (init_handler [''b'' \<mapsto> installed_pkg])
         [''a | b''])) = [''b'']
   \<and> fst (snd (is_bucket_available host_amd64 (init_handler [''b'' \<mapsto> installed_pkg])
         [''a | b''])) = [''b'']
   \<and> fst (snd (is_bucket_uptodate host_amd64 (init_handler [''b'' \<mapsto> installed_pkg])
         [''a | b''])) = [''b'']
   \<and> fst (snd (is_bucket_installed host_amd64 (init_handler [''b'' \<mapsto> installed_pkg])
         [''b''])) = [''b'']"
proof -
  let ?h = "init_handler [''b'' \<mapsto> installed_pkg]"
  have a: "CHR ''|'' \<notin> set ''a''" and b: "CHR ''|'' \<notin> set ''b''" by simp_all
  have ia: "is_bucket_installed host_amd64 ?h [''a''] = (Inr False, [''a''], ?h)"
    by (simp add: installed_single installed_item_def native_name_def init_handler_def)
  have ib: "is_bucket_installed host_amd64 ?h [''b''] = (Inr True, [''b''], ?h)"
    by (simp add: installed_single installed_item_def native_name_def init_handler_def
        installed_pkg_def)
  have aa: "is_bucket_available host_amd64 ?h [''a''] = (Inr False, [''a''], ?h)"
    by (simp add: available_single available_item_def init_handler_def)
  have ab: "is_bucket_available host_amd64 ?h [''b''] = (Inr True, [''b''], ?h)"
    by (simp add: available_single available_item_def init_handler_def)
  show ?thesis
    using a b ia ib aa ab
      alternation_resolved_once [OF a b, of host_amd64 ?h "[''a'']" ?h "[''b'']" ?h]
    by simp
qed

subsection \<open>Reloading the cache\<close>

lemma force_reload_nested_locked:
  "\<forall>j<n. open_outcome pm (opens h + j) = Locked \<Longrightarrow> n \<le> room \<Longrightarrow>
   force_reload_nested pm room h
     = force_reload_nested pm (room - n) (h\<lparr>opens := opens h + n, slept := slept h + n\<rparr>)"
proof (induction n arbitrary: h room)
  case 0
  then show ?case by simp
next
  case (Suc n)
  from Suc.prems(2) obtain room' where room: "room = Suc room'" by (cases room) auto
  let ?h1 = "h\<lparr>opens := Suc (opens h), slept := slept h + 1\<rparr>"
  from Suc.prems(1) have "open_outcome pm (opens h) = Locked" by force
  with room have "force_reload_nested pm room h = force_reload_nested pm room' ?h1"
    by simp
  also have "\<dots> = force_reload_nested pm (room' - n)
      (?h1\<lparr>opens := opens ?h1 + n, slept := slept ?h1 + n\<rparr>)"
  proof (rule Suc.IH)
    show "\<forall>j<n. open_outcome pm (opens ?h1 + j) = Locked"
      using Suc.prems(1) by (auto dest: spec [of _ "Suc _"])
    show "n \<le> room'" using Suc.prems(2) room by simp
  qed
  finally show ?case using room by simp
qed

lemma force_reload_nested_returned:
  "force_reload_nested pm room h = (Inr (), h') \<Longrightarrow>
   \<exists>n<room. open_outcome pm (opens h + n) = Opened
     \<and> (\<forall>j<n. open_outcome pm (opens h + j) = Locked)
     \<and> h' = h\<lparr>cache := database pm, opens := opens h + n + 1, slept := slept h + n\<rparr>"
proof (induction room arbitrary: h)
  case 0
  then show ?case by simp
next
  case (Suc room)
  show ?case
  proof (cases "open_outcome pm (opens h)")
    case Opened
    with Suc.prems have "open_outcome pm (opens h + 0) = Opened
        \<and> (\<forall>j<0. open_outcome pm (opens h + j) = Locked)
        \<and> h' = h\<lparr>cache := database pm, opens := opens h + 0 + 1, slept := slept h + 0\<rparr>"
      by auto
    then show ?thesis by blast
  next
    case Locked
    let ?h1 = "h\<lparr>opens := Suc (opens h), slept := slept h + 1\<rparr>"
    from Suc.prems Locked have "force_reload_nested pm room ?h1 = (Inr (), h')" by simp
    from Suc.IH [OF this] obtain n where n: "n < room"
      "open_outcome pm (Suc (opens h) + n) = Opened"
      "\<forall>j<n. open_outcome pm (Suc (opens h) + j) = Locked"
      "h' = ?h1\<lparr>cache := database pm, opens := opens ?h1 + n + 1, slept := slept ?h1 + n\<rparr>"
      by auto
    have "\<forall>j<Suc n. open_outcome pm (opens h + j) = Locked"
    proof (intro allI impI)
      fix j assume "j < Suc n"
      then show "open_outcome pm (opens h + j) = Locked"
        using Locked n(3) by (cases j) auto
    qed
    with n(1,2,4) have "Suc n < Suc room \<and> open_outcome pm (opens h + Suc n) = Opened
        \<and> (\<forall>j<Suc n. open_outcome pm (opens h + j) = Locked)
        \<and> h' = h\<lparr>cache := database pm, opens := opens h + Suc n + 1, slept := slept h + Suc n\<rparr>"
      by simp
    then show ?thesis by blast
  next
    case (OpenFailed e)
    with Suc.prems show ?thesis by simp
  qed
qed

text \<open>
  While the stack has room, the reload goes by the first attempt that does not find the
  database locked.
\<close>

lemma force_reload_at_unlocked:
  assumes "\<forall>j<n. open_outcome pm (opens h + j) = Locked"
    and "n < recursion_room pm (opens h)"
  shows "force_reload_apt_cache pm h =
     (case open_outcome pm (opens h + n) of
        Opened \<Rightarrow> (Inr (), h\<lparr>cache := database pm, opens := opens h + n + 1, slept := slept h + n\<rparr>)
      | Locked \<Rightarrow>
          force_reload_nested pm (recursion_room pm (opens h) - n - 1)
            (h\<lparr>opens := opens h + n + 1, slept := slept h + n + 1\<rparr>)
      | OpenFailed e \<Rightarrow> (Inl e, h\<lparr>opens := opens h + n + 1, slept := slept h + n\<rparr>))"
proof -
  from assms(2) obtain room' where room: "recursion_room pm (opens h) - n = Suc room'"
    by (cases "recursion_room pm (opens h) - n") auto
  from assms(2) have "n \<le> recursion_room pm (opens h)" by simp
  from force_reload_nested_locked [OF assms(1) this] room show ?thesis
    by (simp add: force_reload_apt_cache_def split: open_result.splits)
qed


text \<open>
  The reload returns normally exactly when an attempt for which the stack still has room
  opens the cache, after attempts that all found the database locked: with \<open>n\<close> locked
  attempts first, it has then opened the cache \<open>n + 1\<close> times and slept \<open>n\<close> times one
  second.
\<close>

lemma force_reload_returns:
  "force_reload_apt_cache pm h = (Inr (), h')
     \<longleftrightarrow> (\<exists>n<recursion_room pm (opens h). open_outcome pm (opens h + n) = Opened
            \<and> (\<forall>j<n. open_outcome pm (opens h + j) = Locked)
            \<and> h' = h\<lparr>cache := database pm, opens := opens h + n + 1, slept := slept h + n\<rparr>)"
proof
  assume "force_reload_apt_cache pm h = (Inr (), h')"
  then show "\<exists>n<recursion_room pm (opens h). open_outcome pm (opens h + n) = Opened
            \<and> (\<forall>j<n. open_outcome pm (opens h + j) = Locked)
            \<and> h' = h\<lparr>cache := database pm, opens := opens h + n + 1, slept := slept h + n\<rparr>"
    unfolding force_reload_apt_cache_def by (rule force_reload_nested_returned)
next
  assume "\<exists>n<recursion_room pm (opens h). open_outcome pm (opens h + n) = Opened
            \<and> (\<forall>j<n. open_outcome pm (opens h + j) = Locked)
            \<and> h' = h\<lparr>cache := database pm, opens := opens h + n + 1, slept := slept h + n\<rparr>"
  then obtain n where n: "n < recursion_room pm (opens h)"
      "open_outcome pm (opens h + n) = Opened"
      "\<forall>j<n. open_outcome pm (opens h + j) = Locked"
      "h' = h\<lparr>cache := database pm, opens := opens h + n + 1, slept := slept h + n\<rparr>"
    by blast
  show "force_reload_apt_cache pm h = (Inr (), h')"
    using force_reload_at_unlocked [OF n(3) n(1)] n(2) n(4) by simp
qed

text \<open>
  When the database is locked at every attempt the stack has room for, the reload ends
  with RecursionError, after as many attempts and as many seconds of sleep.
\<close>

lemma force_reload_gives_up:
  assumes "\<forall>j<recursion_room pm (opens h). open_outcome pm (opens h + j) = Locked"
  shows "force_reload_apt_cache pm h =
     (Inl RecursionError,
      h\<lparr>opens := opens h + recursion_room pm (opens h),
        slept := slept h + recursion_room pm (opens h)\<rparr>)"
  using force_reload_nested_locked [OF assms le_refl] by (simp add: force_reload_apt_cache_def)

text \<open>
  C8. A package database that is locked for the first thousand attempts and free from
  then on, on a stack with room for a thousand nested calls: the reload does not go on
  to the attempt that would open the cache. It ends with RecursionError after a
  thousand attempts and a thousand seconds of sleep. The same reload on a stack with room
  for two thousand nested calls returns normally after a thousand and one attempts.
\<close>

theorem force_reload_ends_in_recursion_error:
  "open_outcome (idle_package_manager\<lparr>open_outcome := (\<lambda>k. if k < 1000 then Locked else Opened)\<rparr>)
       1000 = Opened
   \<and> recursion_room
       (idle_package_manager\<lparr>open_outcome := (\<lambda>k. if k < 1000 then Locked else Opened)\<rparr>)
       0 = 1000
   \<and> force_reload_apt_cache
       (idle_package_manager\<lparr>open_outcome := (\<lambda>k. if k < 1000 then Locked else Opened)\<rparr>)
       (init_handler Map.empty)
     = (Inl RecursionError, (init_handler Map.empty)\<lparr>opens := 1000, slept := 1000\<rparr>)
   \<and> force_reload_apt_cache
       (idle_package_manager\<lparr>open_outcome := (\<lambda>k. if k < 1000 then Locked else Opened),
                              recursion_room := (\<lambda>k. 2000)\<rparr>)
       (init_handler Map.empty)
     = (Inr (), (init_handler Map.empty)\<lparr>opens := 1001, slept := 1000\<rparr>)"
proof -
  let ?busy = "idle_package_manager\<lparr>open_outcome := (\<lambda>k. if k < 1000 then Locked else Opened)\<rparr>"
  let ?deep = "?busy\<lparr>recursion_room := (\<lambda>k. 2000)\<rparr>"
  let ?h = "init_handler Map.empty"
  have room: "recursion_room ?busy (opens ?h) = 1000"
    by (simp add: idle_package_manager_def)
  have "\<forall>j<recursion_room ?busy (opens ?h). open_outcome ?busy (opens ?h + j) = Locked"
    by (simp add: init_handler_def idle_package_manager_def)
  from force_reload_gives_up [OF this]
  have a: "force_reload_apt_cache ?busy ?h
      = (Inl RecursionError, ?h\<lparr>opens := 1000, slept := 1000\<rparr>)"
    by (simp add: init_handler_def idle_package_manager_def)
  have locked: "\<forall>j<1000. open_outcome ?deep (opens ?h + j) = Locked"
    by (simp add: init_handler_def)
  have "(1000 :: nat) < recursion_room ?deep (opens ?h)" by simp
  from force_reload_at_unlocked [OF locked this]
  have b: "force_reload_apt_cache ?deep ?h = (Inr (), ?h\<lparr>opens := 1001, slept := 1000\<rparr>)"
    by (simp add: init_handler_def idle_package_manager_def)
  from a b room show ?thesis by (simp add: init_handler_def)
qed

subsection \<open>What an evaluation leaves unchanged\<close>

lemma evaluated_refl: "evaluated h h"
  by (simp add: evaluated_def)

lemma evaluated_trans: "evaluated h h1 \<Longrightarrow> evaluated h1 h2 \<Longrightarrow> evaluated h h2"
  by (simp add: evaluated_def)

lemma check_java_equiv_frame: "check_java_equiv sys h s = (r, h') \<Longrightarrow> evaluated h h'"
  by (auto simp: check_java_equiv_def evaluated_def
      split: option.splits if_splits sum.splits prod.splits)

lemma installed_item_frame: "installed_item sys h s f = (r, h') \<Longrightarrow> evaluated h h'"
  by (auto simp: installed_item_def evaluated_refl dest: check_java_equiv_frame
      split: sum.splits if_splits)

lemma available_item_frame: "available_item sys h s f = (r, h') \<Longrightarrow> evaluated h h'"
  by (auto simp: available_item_def evaluated_refl dest: check_java_equiv_frame
      split: sum.splits if_splits prod.splits bool.splits list.splits)

lemma uptodate_item_frame: "uptodate_item sys h s f = (r, h') \<Longrightarrow> evaluated h h'"
  by (auto simp: uptodate_item_def Let_def evaluated_refl dest: check_java_equiv_frame
      split: sum.splits if_splits prod.splits)

lemma installed_loop_frame:
  "evaluated h (snd (snd (is_bucket_installed_loop sys h bucket i f)))"
  "evaluated h (snd (snd (is_bucket_installed_alts sys h bucket i f alts)))"
proof (induction sys h bucket i f and sys h bucket i f alts
    rule: is_bucket_installed_loop_is_bucket_installed_alts.induct)
  case (1 sys h bucket i is_inst)
  show ?case
  proof (cases "i < length bucket")
    case False
    then show ?thesis by (simp add: is_bucket_installed_loop.simps evaluated_refl)
  next
    case inside: True
    show ?thesis
    proof (cases "str_contains '' | '' (bucket ! i)")
      case True
      with inside 1(1) show ?thesis by (simp add: is_bucket_installed_loop.simps)
    next
      case False
      obtain r h' where item: "installed_item sys h (bucket ! i) is_inst = (r, h')"
        by (cases "installed_item sys h (bucket ! i) is_inst")
      then have step: "evaluated h h'" by (rule installed_item_frame)
      show ?thesis
      proof (cases r)
        case (Inl e)
        with inside False item step show ?thesis by (simp add: is_bucket_installed_loop.simps)
      next
        case (Inr g)
        with 1(2) [OF inside False item [symmetric]] step
        have "evaluated h (snd (snd (is_bucket_installed_loop sys h' bucket (Suc i) g)))"
          by (blast intro: evaluated_trans)
        with inside False item Inr show ?thesis by (simp add: is_bucket_installed_loop.simps)
      qed
    qed
  qed
next
  case (2 sys h bucket i is_inst)
  obtain r h' where item: "installed_item sys h (bucket ! i) is_inst = (r, h')"
    by (cases "installed_item sys h (bucket ! i) is_inst")
  then have step: "evaluated h h'" by (rule installed_item_frame)
  show ?case
  proof (cases r)
    case (Inl e)
    with item step show ?thesis by simp
  next
    case (Inr g)
    with 2 [OF item [symmetric]] step
    have "evaluated h (snd (snd (is_bucket_installed_loop sys h' bucket (Suc i) g)))"
      by (blast intro: evaluated_trans)
    with item Inr show ?thesis by simp
  qed
next
  case (3 sys h bucket i is_inst package rest)
  obtain r b1 h1 where test: "is_bucket_installed_loop sys h [package] 0 True = (r, b1, h1)"
    by (cases "is_bucket_installed_loop sys h [package] 0 True")
  with 3(1) have step1: "evaluated h h1" by simp
  show ?case
  proof (cases r)
    case (Inl e)
    with test step1 show ?thesis by simp
  next
    case (Inr found)
    show ?thesis
    proof (cases found)
      case False
      with 3(3) [of r "(b1, h1)" found b1 h1] test Inr step1
      have "evaluated h (snd (snd (is_bucket_installed_alts sys h1 bucket i is_inst rest)))"
        by (auto intro: evaluated_trans)
      with test Inr False show ?thesis by simp
    next
      case True
      obtain r2 h2 where item: "installed_item sys h1 package is_inst = (r2, h2)"
        by (cases "installed_item sys h1 package is_inst")
      then have step2: "evaluated h1 h2" by (rule installed_item_frame)
      show ?thesis
      proof (cases r2)
        case (Inl e)
        with test Inr True item step1 step2 show ?thesis
          by (auto intro: evaluated_trans)
      next
        case inr2: (Inr g)
        from 3(2) [of r "(b1, h1)" found b1 h1 r2 h2 g] test Inr True item inr2 step1 step2
        have "evaluated h (snd (snd (is_bucket_installed_loop sys h2
            (remove1 (bucket ! i) bucket @ [package]) (Suc i) g)))"
          by (auto intro: evaluated_trans)
        with test Inr True item inr2 show ?thesis by simp
      qed
    qed
  qed
qed

lemma available_loop_frame:
  "evaluated h (snd (snd (is_bucket_available_loop sys h bucket i f)))"
  "evaluated h (snd (snd (is_bucket_available_alts sys h bucket i f alts)))"
proof (induction sys h bucket i f and sys h bucket i f alts
    rule: is_bucket_available_loop_is_bucket_available_alts.induct)
  case (1 sys h bucket i all_in_cache)
  show ?case
  proof (cases "i < length bucket")
    case False
    then show ?thesis by (simp add: is_bucket_available_loop.simps evaluated_refl)
  next
    case inside: True
    show ?thesis
    proof (cases "str_contains '' | '' (bucket ! i)")
      case True
      with inside 1(1) show ?thesis by (simp add: is_bucket_available_loop.simps)
    next
      case False
      obtain r h' where item: "available_item sys h (bucket ! i) all_in_cache = (r, h')"
        by (cases "available_item sys h (bucket ! i) all_in_cache")
      then have step: "evaluated h h'" by (rule available_item_frame)
      show ?thesis
      proof (cases r)
        case (Inl e)
        with inside False item step show ?thesis by (simp add: is_bucket_available_loop.simps)
      next
        case (Inr g)
        with 1(2) [OF inside False item [symmetric]] step
        have "evaluated h (snd (snd (is_bucket_available_loop sys h' bucket (Suc i) g)))"
          by (blast intro: evaluated_trans)
        with inside False item Inr show ?thesis by (simp add: is_bucket_available_loop.simps)
      qed
    qed
  qed
next
  case (2 sys h bucket i all_in_cache)
  obtain r h' where item: "available_item sys h (bucket ! i) all_in_cache = (r, h')"
    by (cases "available_item sys h (bucket ! i) all_in_cache")
  then have step: "evaluated h h'" by (rule available_item_frame)
  show ?case
  proof (cases r)
    case (Inl e)
    with item step show ?thesis by simp
  next
    case (Inr g)
    with 2 [OF item [symmetric]] step
    have "evaluated h (snd (snd (is_bucket_available_loop sys h' bucket (Suc i) g)))"
      by (blast intro: evaluated_trans)
    with item Inr show ?thesis by simp
  qed
next
  case (3 sys h bucket i all_in_cache package rest)
  obtain r b1 h1 where test: "is_bucket_available_loop sys h [package] 0 True = (r, b1, h1)"
    by (cases "is_bucket_available_loop sys h [package] 0 True")
  with 3(1) have step1: "evaluated h h1" by simp
  show ?case
  proof (cases r)
    case (Inl e)
    with test step1 show ?thesis by simp
  next
    case (Inr found)
    show ?thesis
    proof (cases found)
      case False
      with 3(3) [of r "(b1, h1)" found b1 h1] test Inr step1
      have "evaluated h (snd (snd (is_bucket_available_alts sys h1 bucket i all_in_cache rest)))"
        by (auto intro: evaluated_trans)
      with test Inr False show ?thesis by simp
    next
      case True
      obtain r2 h2 where item: "available_item sys h1 package all_in_cache = (r2, h2)"
        by (cases "available_item sys h1 package all_in_cache")
      then have step2: "evaluated h1 h2" by (rule available_item_frame)
      show ?thesis
      proof (cases r2)
        case (Inl e)
        with test Inr True item step1 step2 show ?thesis
          by (auto intro: evaluated_trans)
      next
        case inr2: (Inr g)
        from 3(2) [of r "(b1, h1)" found b1 h1 r2 h2 g] test Inr True item inr2 step1 step2
        have "evaluated h (snd (snd (is_bucket_available_loop sys h2
            (remove1 (bucket ! i) bucket @ [package]) (Suc i) g)))"
          by (auto intro: evaluated_trans)
        with test Inr True item inr2 show ?thesis by simp
      qed
    qed
  qed
qed

lemma uptodate_loop_frame:
  "evaluated h (snd (snd (is_bucket_uptodate_loop sys h bucket i f)))"
  "evaluated h (snd (snd (is_bucket_uptodate_alts sys h bucket i f alts)))"
proof (induction sys h bucket i f and sys h bucket i f alts
    rule: is_bucket_uptodate_loop_is_bucket_uptodate_alts.induct)
  case (1 sys h bucket i uptodate)
  show ?case
  proof (cases "i < length bucket")
    case False
    then show ?thesis by (simp add: is_bucket_uptodate_loop.simps evaluated_refl)
  next
    case inside: True
    show ?thesis
    proof (cases "str_contains '' | '' (bucket ! i)")
      case True
      with inside 1(1) show ?thesis by (simp add: is_bucket_uptodate_loop.simps)
    next
      case False
      obtain r h' where item: "uptodate_item sys h (bucket ! i) uptodate = (r, h')"
        by (cases "uptodate_item sys h (bucket ! i) uptodate")
      then have step: "evaluated h h'" by (rule uptodate_item_frame)
      show ?thesis
      proof (cases r)
        case (Inl e)
        with inside False item step show ?thesis by (simp add: is_bucket_uptodate_loop.simps)
      next
        case (Inr g)
        with 1(2) [OF inside False item [symmetric]] step
        have "evaluated h (snd (snd (is_bucket_uptodate_loop sys h' bucket (Suc i) g)))"
          by (blast intro: evaluated_trans)
        with inside False item Inr show ?thesis by (simp add: is_bucket_uptodate_loop.simps)
      qed
    qed
  qed
next
  case (2 sys h bucket i uptodate)
  obtain r h' where item: "uptodate_item sys h (bucket ! i) uptodate = (r, h')"
    by (cases "uptodate_item sys h (bucket ! i) uptodate")
  then have step: "evaluated h h'" by (rule uptodate_item_frame)
  show ?case
  proof (cases r)
    case (Inl e)
    with item step show ?thesis by simp
  next
    case (Inr g)
    with 2 [OF item [symmetric]] step
    have "evaluated h (snd (snd (is_bucket_uptodate_loop sys h' bucket (Suc i) g)))"
      by (blast intro: evaluated_trans)
    with item Inr show ?thesis by simp
  qed
next
  case (3 sys h bucket i uptodate package rest)
  obtain r b1 h1 where test: "is_bucket_available sys h [package] = (r, b1, h1)"
    by (cases "is_bucket_available sys h [package]")
  with available_loop_frame(1) [of h sys "[package]" 0 True] have step1: "evaluated h h1"
    by (simp add: is_bucket_available_def)
  show ?case
  proof (cases r)
    case (Inl e)
    with test step1 show ?thesis by simp
  next
    case (Inr found)
    show ?thesis
    proof (cases found)
      case False
      with 3(2) [of r "(b1, h1)" found b1 h1] test Inr step1
      have "evaluated h (snd (snd (is_bucket_uptodate_alts sys h1 bucket i uptodate rest)))"
        by (auto intro: evaluated_trans)
      with test Inr False show ?thesis by simp
    next
      case True
      obtain r2 h2 where item: "uptodate_item sys h1 package uptodate = (r2, h2)"
        by (cases "uptodate_item sys h1 package uptodate")
      then have step2: "evaluated h1 h2" by (rule uptodate_item_frame)
      show ?thesis
      proof (cases r2)
        case (Inl e)
        with test Inr True item step1 step2 show ?thesis
          by (auto intro: evaluated_trans)
      next
        case inr2: (Inr g)
        from 3(1) [of r "(b1, h1)" found b1 h1 r2 h2 g] test Inr True item inr2 step1 step2
        have "evaluated h (snd (snd (is_bucket_uptodate_loop sys h2
            (remove1 (bucket ! i) bucket @ [package]) (Suc i) g)))"
          by (auto intro: evaluated_trans)
        with test Inr True item inr2 show ?thesis by simp
      qed
    qed
  qed
qed

subsection \<open>The steps of a task\<close>

lemma completions_append: "completions (xs @ ys) = completions xs @ completions ys"
  by (induction xs rule: completions.induct) auto

lemma prepared_refl: "prepared h h"
  by (simp add: prepared_def)

lemma prepared_trans:
  assumes "prepared h h1" and "prepared h1 h2"
  shows "prepared h h2"
proof -
  from assms obtain cs1 cs2 where
    "calls h1 = calls h @ cs1" "Commit \<notin> set cs1" "completions cs1 = []"
    "calls h2 = calls h1 @ cs2" "Commit \<notin> set cs2" "completions cs2 = []"
    by (auto simp: prepared_def)
  then have "calls h2 = calls h @ (cs1 @ cs2) \<and> Commit \<notin> set (cs1 @ cs2)
      \<and> completions (cs1 @ cs2) = []"
    by (simp add: completions_append)
  then have "\<exists>cs. calls h2 = calls h @ cs \<and> Commit \<notin> set cs \<and> completions cs = []"
    by (rule exI)
  with assms show ?thesis by (simp add: prepared_def)
qed

lemma prepared_call:
  "c \<noteq> Commit \<Longrightarrow> completions [c] = [] \<Longrightarrow> prepared h (h\<lparr>calls := calls h @ [c]\<rparr>)"
  by (simp add: prepared_def)

lemma evaluated_prepared: "evaluated h h' \<Longrightarrow> prepared h h'"
  by (simp add: evaluated_def prepared_def)

lemma prepared_completions: "prepared h h' \<Longrightarrow> completions (calls h') = completions (calls h)"
  by (auto simp: prepared_def completions_append)

lemma prepared_commit: "prepared h h' \<Longrightarrow> Commit \<in> set (calls h') \<longleftrightarrow> Commit \<in> set (calls h)"
  by (auto simp: prepared_def)

lemma need_cache_reload_prepared: "need_cache_reload pm bucket need h = (r, h') \<Longrightarrow> prepared h h'"
proof (induction bucket arbitrary: need h)
  case Nil
  then show ?case by (simp add: prepared_refl)
next
  case (Cons pkg_name rest)
  let ?h1 = "h\<lparr>calls := calls h @ [AddForeignArch (last (str_split '':'' pkg_name))]\<rparr>"
  have step: "prepared h ?h1" by (simp add: prepared_call)
  from Cons.prems consider
      "need_cache_reload pm rest True h = (r, h')"
    | "need_cache_reload pm rest need h = (r, h')"
    | "h' = ?h1"
    | added where "need_cache_reload pm rest added ?h1 = (r, h')"
    by (auto simp: Let_def split: if_splits sum.splits)
  then show ?case
  proof cases
    case 1
    then show ?thesis by (rule Cons.IH)
  next
    case 2
    then show ?thesis by (rule Cons.IH)
  next
    case 3
    with step show ?thesis by simp
  next
    case 4
    then have "prepared ?h1 h'" by (rule Cons.IH)
    with step show ?thesis by (rule prepared_trans)
  qed
qed

lemma force_reload_nested_frame:
  "force_reload_nested pm room h = (r, h') \<Longrightarrow>
   apt_fd h' = apt_fd h \<and> queue h' = queue h \<and> calls h' = calls h"
proof (induction room arbitrary: h)
  case 0
  then show ?case by auto
next
  case (Suc room)
  show ?case
  proof (cases "open_outcome pm (opens h)")
    case Opened
    with Suc.prems show ?thesis by auto
  next
    case Locked
    with Suc.prems
    have "force_reload_nested pm room (h\<lparr>opens := Suc (opens h), slept := slept h + 1\<rparr>) = (r, h')"
      by simp
    from Suc.IH [OF this] show ?thesis by simp
  next
    case (OpenFailed e)
    with Suc.prems show ?thesis by auto
  qed
qed

lemma force_reload_prepared: "force_reload_apt_cache pm h = (r, h') \<Longrightarrow> prepared h h'"
  using force_reload_nested_frame [of pm "recursion_room pm (opens h)" h r h']
  by (simp add: prepared_def force_reload_apt_cache_def)

lemma reload_for_new_arch_prepared:
  assumes "reload_for_new_arch pm h = (r, h')"
  shows "prepared h h'"
proof -
  obtain r1 h1 where first: "force_reload_apt_cache pm h = (r1, h1)"
    by (cases "force_reload_apt_cache pm h")
  then have p1: "prepared h h1" by (rule force_reload_prepared)
  let ?h2 = "h1\<lparr>calls := calls h1 @ [Update]\<rparr>"
  have p2: "prepared h1 ?h2" by (simp add: prepared_call)
  from assms first consider "h' = h1" | "h' = ?h2"
    | "force_reload_apt_cache pm ?h2 = (r, h')"
    by (auto simp: reload_for_new_arch_def Let_def split: sum.splits option.splits)
  then show ?thesis
  proof cases
    case 1
    with p1 show ?thesis by simp
  next
    case 2
    with p1 p2 show ?thesis by (auto intro: prepared_trans)
  next
    case 3
    then have "prepared ?h2 h'" by (rule force_reload_prepared)
    with p1 p2 show ?thesis by (blast intro: prepared_trans)
  qed
qed

lemma mark_prepared: "mark pm h name = (r, h') \<Longrightarrow> prepared h h'"
  by (auto simp: mark_def Let_def prepared_refl prepared_call split: option.splits)

lemma mark_bucket_prepared: "mark_bucket sys pm bucket h = (r, h') \<Longrightarrow> prepared h h'"
proof (induction bucket arbitrary: h)
  case Nil
  then show ?case by (simp add: prepared_refl)
next
  case (Cons pkg_name rest)
  show ?case
  proof (cases "native_name sys pkg_name")
    case (Inl e)
    with Cons.prems show ?thesis by (simp add: prepared_refl)
  next
    case (Inr name)
    obtain r1 h1 where m: "mark pm h name = (r1, h1)" by (cases "mark pm h name")
    then have p1: "prepared h h1" by (rule mark_prepared)
    show ?thesis
    proof (cases r1)
      case (Inl e)
      with Cons.prems Inr m p1 show ?thesis by simp
    next
      case inr: (Inr u)
      with Cons.prems Inr m have "mark_bucket sys pm rest h1 = (r, h')" by simp
      then have "prepared h1 h'" by (rule Cons.IH)
      with p1 show ?thesis by (rule prepared_trans)
    qed
  qed
qed

lemma install_progress_prepared:
  "install_progress pm cs h = (r, h') \<Longrightarrow> prepared h h'"
proof (induction pm cs h rule: install_progress.induct)
  case (1 pm h)
  then show ?case by (simp add: prepared_refl)
next
  case (2 pm rest h)
  obtain r1 h1 where first: "force_reload_apt_cache pm h = (r1, h1)"
    by (cases "force_reload_apt_cache pm h")
  then have p1: "prepared h h1" by (rule force_reload_prepared)
  show ?case
  proof (cases r1)
    case (Inl e)
    with 2(2) first p1 show ?thesis by simp
  next
    case (Inr u)
    with 2(2) first have "install_progress pm rest h1 = (r, h')" by simp
    with 2(1) [OF first [symmetric] Inr] have "prepared h1 h'" by simp
    with p1 show ?thesis by (rule prepared_trans)
  qed
next
  case (3 pm msg rest h)
  obtain r1 h1 where first: "force_reload_apt_cache pm h = (r1, h1)"
    by (cases "force_reload_apt_cache pm h")
  then have p1: "prepared h h1" by (rule force_reload_prepared)
  with 3 first show ?case by (auto split: sum.splits)
qed

lemma commit_frame:
  assumes "commit pm h = (r, h')"
  shows "apt_fd h' = map_option (\<lambda>_. apply_output pm) (apt_fd h) \<and> queue h' = queue h
       \<and> completions (calls h') = completions (calls h) \<and> Commit \<in> set (calls h')"
proof -
  let ?h1 = "h\<lparr>calls := calls h @ [Commit],
               apt_fd := map_option (\<lambda>_. apply_output pm) (apt_fd h)\<rparr>"
  from assms obtain r1 where "install_progress pm (commit_calls pm) ?h1 = (r1, h')"
    by (cases "install_progress pm (commit_calls pm) ?h1")
      (auto simp: commit_def Let_def split: option.splits sum.splits)
  then have "prepared ?h1 h'" by (rule install_progress_prepared)
  then show ?thesis by (auto simp: prepared_def completions_append)
qed

text \<open>A task ends before the commit, or in it.\<close>

lemma really_install_bucket_cases:
  assumes "really_install_bucket sys pm h bucket = (out, b, h')"
  shows "prepared (h\<lparr>apt_fd := Some []\<rparr>) h'
       \<or> (\<exists>h4 r. prepared (h\<lparr>apt_fd := Some []\<rparr>) h4 \<and> commit pm h4 = (r, h')
              \<and> out = (case r of Inl e \<Rightarrow> Inl e | Inr u \<Rightarrow> Inr True))"
proof -
  let ?h0 = "h\<lparr>apt_fd := Some []\<rparr>"
  obtain r1 b1 h1 where ev: "is_bucket_uptodate sys ?h0 bucket = (r1, b1, h1)"
    by (cases "is_bucket_uptodate sys ?h0 bucket")
  have "evaluated ?h0 h1"
    using uptodate_loop_frame(1) [of ?h0 sys bucket 0 True] ev
    by (simp add: is_bucket_uptodate_def)
  then have p1: "prepared ?h0 h1" by (rule evaluated_prepared)
  show ?thesis
  proof (cases "r1 = Inr False")
    case False
    with assms ev have "h' = h1"
      by (auto simp: really_install_bucket_def split: sum.splits bool.splits)
    with p1 show ?thesis by simp
  next
    case True
    obtain r2 h2 where arch: "need_cache_reload pm b1 False h1 = (r2, h2)"
      by (cases "need_cache_reload pm b1 False h1")
    then have "prepared h1 h2" by (rule need_cache_reload_prepared)
    with p1 have p2: "prepared ?h0 h2" by (rule prepared_trans)
    show ?thesis
    proof (cases r2)
      case (Inl e)
      with assms ev True arch have "h' = h2" by (simp add: really_install_bucket_def)
      with p2 show ?thesis by simp
    next
      case (Inr need)
      let ?reload = "if need then reload_for_new_arch pm h2 else (Inr (), h2)"
      obtain r3 h3 where reload: "?reload = (r3, h3)" by (cases ?reload)
      then have "prepared h2 h3"
        by (auto simp: prepared_refl dest: reload_for_new_arch_prepared split: if_splits)
      with p2 have p3: "prepared ?h0 h3" by (rule prepared_trans)
      show ?thesis
      proof (cases r3)
        case (Inl e)
        with assms ev True arch Inr reload have "h' = h3"
          by (simp add: really_install_bucket_def)
        with p3 show ?thesis by simp
      next
        case reloaded: (Inr u)
        obtain r4 h4 where marks: "mark_bucket sys pm b1 h3 = (r4, h4)"
          by (cases "mark_bucket sys pm b1 h3")
        then have "prepared h3 h4" by (rule mark_bucket_prepared)
        with p3 have p4: "prepared ?h0 h4" by (rule prepared_trans)
        show ?thesis
        proof (cases r4)
          case (Inl e)
          with assms ev True arch Inr reload reloaded marks have "h' = h4"
            by (simp add: really_install_bucket_def)
          with p4 show ?thesis by simp
        next
          case marked: (Inr u')
          from assms ev True arch Inr reload reloaded marks marked
          obtain r5 where "commit pm h4 = (r5, h')"
            and "out = (case r5 of Inl e \<Rightarrow> Inl e | Inr u \<Rightarrow> Inr True)"
            by (cases "commit pm h4")
              (auto simp: really_install_bucket_def split: sum.splits)
          with p4 show ?thesis by blast
        qed
      qed
    qed
  qed
qed

lemma really_install_bucket_frame:
  assumes "really_install_bucket sys pm h bucket = (out, b, h')"
  shows "(\<exists>content. apt_fd h' = Some content) \<and> queue h' = queue h
       \<and> completions (calls h') = completions (calls h)"
proof -
  from really_install_bucket_cases [OF assms] show ?thesis
  proof
    assume "prepared (h\<lparr>apt_fd := Some []\<rparr>) h'"
    then show ?thesis by (auto simp: prepared_def completions_append)
  next
    assume "\<exists>h4 r. prepared (h\<lparr>apt_fd := Some []\<rparr>) h4 \<and> commit pm h4 = (r, h')
              \<and> out = (case r of Inl e \<Rightarrow> Inl e | Inr u \<Rightarrow> Inr True)"
    then obtain h4 r where p: "prepared (h\<lparr>apt_fd := Some []\<rparr>) h4"
      and c: "commit pm h4 = (r, h')" by blast
    from commit_frame [OF c] p show ?thesis
      by (auto simp: prepared_def completions_append)
  qed
qed


subsection \<open>Completion\<close>

lemma install_bucket_submits:
  assumes "install_bucket sys h bucket = (Inr need, b, h1)"
  shows "queue h1 = queue h @ [b] \<and> calls h1 = calls h
       \<and> is_bucket_uptodate sys h bucket = (Inr (\<not> need), b, h1\<lparr>queue := queue h\<rparr>)"
proof -
  obtain r b0 h0 where ev: "is_bucket_uptodate sys h bucket = (r, b0, h0)"
    by (cases "is_bucket_uptodate sys h bucket")
  have "evaluated h h0"
    using uptodate_loop_frame(1) [of h sys bucket 0 True] ev
    by (simp add: is_bucket_uptodate_def)
  with assms ev show ?thesis
    by (cases r) (auto simp: install_bucket_def evaluated_def)
qed

lemma run_task_completes:
  assumes "really_install_bucket sys pm h bucket = (out, b, h')"
  shows "\<exists>res. run_task sys pm h bucket = h'\<lparr>apt_fd := None, calls := calls h' @ [Installed res]\<rparr>
           \<and> result_bucket res = b
           \<and> (result_error res = None \<longleftrightarrow> out = Inr True)"
proof -
  from really_install_bucket_frame [OF assms] obtain content where "apt_fd h' = Some content"
    by blast
  moreover have "out = Inr True \<or> (\<exists>e. out = Inl e)"
    using really_install_bucket_cases [OF assms] assms
    by (cases out) (auto simp: really_install_bucket_def split: prod.splits sum.splits bool.splits option.splits if_splits)
  ultimately show ?thesis
    using assms by (auto simp: run_task_def on_done_def Let_def)
qed

text \<open>
  A call of \<^verbatim>\<open>install_bucket\<close> whose evaluation of the bucket returns has submitted one
  task. With the executor idle at that moment, the worker runs the task to its end,
  whatever the host and the package manager do by then (the task may succeed, find the
  bucket up to date, or fail in its evaluation, in adding an architecture, in a reload
  of the cache, in the update, in marking or in the commit), and the completion callback
  has then been called exactly once more than before the call of \<^verbatim>\<open>install_bucket\<close>.
  The exchange file the task has created is taken to be there still when the done
  callback removes it.
\<close>

lemma submitted_task_completes_once:
  assumes "install_bucket sys h bucket = (Inr need, b, h1)"
    and "queue h = []"
  shows "\<exists>res. completions (calls (worker sys' pm h1)) = completions (calls h) @ [res]
           \<and> queue (worker sys' pm h1) = []"
proof -
  from install_bucket_submits [OF assms(1)] assms(2)
  have q: "queue h1 = [b]" and c: "calls h1 = calls h" by simp_all
  let ?h = "h1\<lparr>queue := []\<rparr>"
  from q have w: "worker sys' pm h1 = run_task sys' pm ?h b" by (simp add: worker_def)
  obtain out b' h' where task: "really_install_bucket sys' pm ?h b = (out, b', h')"
    by (cases "really_install_bucket sys' pm ?h b")
  from run_task_completes [OF task] obtain res where
    run: "run_task sys' pm ?h b = h'\<lparr>apt_fd := None, calls := calls h' @ [Installed res]\<rparr>"
    by blast
  from really_install_bucket_frame [OF task] c
  have "queue h' = [] \<and> completions (calls h') = completions (calls h)" by simp
  with w run show ?thesis by (simp add: completions_append)
qed

text \<open>
  A task that adds an architecture and then finds the package database locked for as
  long as the stack has room: the reload ends with RecursionError, the task ends with
  it, and the completion callback is called once, with that error.
\<close>

lemma locked_database_reported:
  "install_bucket host_amd64 (init_handler Map.empty) [''x:i386'']
     = (Inr True, [''x:i386''], (init_handler Map.empty)\<lparr>queue := [[''x:i386'']]\<rparr>)
   \<and> worker host_amd64
       (idle_package_manager\<lparr>open_outcome := (\<lambda>k. Locked),
                              add_foreign_arch := (\<lambda>arch. Inr True),
                              exception_text := (\<lambda>e. ''maximum recursion depth exceeded'')\<rparr>)
       ((init_handler Map.empty)\<lparr>queue := [[''x:i386'']]\<rparr>)
     = (init_handler Map.empty)
         \<lparr>opens := 1000, slept := 1000,
           calls := [AddForeignArch ''i386'',
             Installed (RequirementsResult [''x:i386'']
               (Some ''maximum recursion depth exceeded''))]\<rparr>"
proof -
  let ?pm = "idle_package_manager\<lparr>open_outcome := (\<lambda>k. Locked),
                                   add_foreign_arch := (\<lambda>arch. Inr True),
                                   exception_text := (\<lambda>e. ''maximum recursion depth exceeded'')\<rparr>"
  let ?h = "(init_handler Map.empty)\<lparr>apt_fd := Some [], calls := [AddForeignArch ''i386'']\<rparr>"
  have a: "install_bucket host_amd64 (init_handler Map.empty) [''x:i386'']
       = (Inr True, [''x:i386''], (init_handler Map.empty)\<lparr>queue := [[''x:i386'']]\<rparr>)"
    by (simp add: install_bucket_def uptodate_single uptodate_item_def native_name_def
        init_handler_def host_amd64_def)
  have room: "recursion_room ?pm (opens ?h) = 1000" by (simp add: idle_package_manager_def)
  have "\<forall>j<recursion_room ?pm (opens ?h). open_outcome ?pm (opens ?h + j) = Locked" by simp
  from force_reload_gives_up [OF this]
  have reload: "force_reload_apt_cache ?pm ?h
      = (Inl RecursionError, ?h\<lparr>opens := 1000, slept := 1000\<rparr>)"
    by (simp add: init_handler_def idle_package_manager_def)
  have "worker host_amd64 ?pm ((init_handler Map.empty)\<lparr>queue := [[''x:i386'']]\<rparr>)
      = (init_handler Map.empty)
         \<lparr>opens := 1000, slept := 1000,
           calls := [AddForeignArch ''i386'',
             Installed (RequirementsResult [''x:i386'']
               (Some ''maximum recursion depth exceeded''))]\<rparr>"
    using reload
    by (simp add: worker_def run_task_def really_install_bucket_def uptodate_single
        uptodate_item_def native_name_def init_handler_def host_amd64_def Let_def
        reload_for_new_arch_def on_done_def str_exception_def)
  with a show ?thesis by simp
qed

text \<open>
  C1. The bucket \<^verbatim>\<open>["openjdk-11-source"]\<close>, and likewise \<^verbatim>\<open>["openjdk-11"]\<close>, on a
  host where the package is not installed: the evaluation of the bucket raises TypeError
  inside \<^verbatim>\<open>install_bucket\<close>, before the task is submitted. The exception goes to the
  caller, the queue of the executor stays empty, and the worker has nothing to run: the
  completion callback is not called.
\<close>

theorem no_completion_when_evaluation_raises:
  "install_bucket host_amd64 (init_handler Map.empty) [''openjdk-11-source'']
     = (Inl TypeError, [''openjdk-11-source''], init_handler Map.empty)
   \<and> install_bucket host_amd64 (init_handler Map.empty) [''openjdk-11'']
     = (Inl TypeError, [''openjdk-11''], init_handler Map.empty)
   \<and> queue (init_handler Map.empty) = []
   \<and> worker host_amd64 idle_package_manager (init_handler Map.empty) = init_handler Map.empty
   \<and> completions (calls (init_handler Map.empty)) = []"
proof -
  have a: "install_bucket host_amd64 (init_handler Map.empty) [''openjdk-11-source'']
     = (Inl TypeError, [''openjdk-11-source''], init_handler Map.empty)"
    by (simp add: install_bucket_def uptodate_single uptodate_item_def native_name_def
        check_java_equiv_def regex_defs Let_def)
  have b: "install_bucket host_amd64 (init_handler Map.empty) [''openjdk-11'']
     = (Inl TypeError, [''openjdk-11''], init_handler Map.empty)"
    by (simp add: install_bucket_def uptodate_single uptodate_item_def native_name_def
        check_java_equiv_def regex_defs Let_def)
  from a b show ?thesis by (simp add: worker_def init_handler_def)
qed



subsection \<open>Buckets that are up to date\<close>

text \<open>
  C2. With the package \<^verbatim>\<open>openjdk-11-source\<close> in the cache, installed and not
  upgradable, \<^verbatim>\<open>is_bucket_uptodate\<close> of the bucket \<^verbatim>\<open>["openjdk-11-source"]\<close> does
  not return true and \<^verbatim>\<open>install_bucket\<close> does not return false: both raise
  TypeError, since \<^verbatim>\<open>is_bucket_uptodate\<close> calls \<^verbatim>\<open>check_java_equiv\<close> on every
  specifier containing \<^verbatim>\<open>openjdk\<close>, installed or not.
\<close>

theorem installed_package_raises:
  "is_bucket_uptodate host_amd64 (init_handler [''openjdk-11-source'' \<mapsto> installed_pkg])
       [''openjdk-11-source'']
     = (Inl TypeError, [''openjdk-11-source''],
        init_handler [''openjdk-11-source'' \<mapsto> installed_pkg])
   \<and> install_bucket host_amd64 (init_handler [''openjdk-11-source'' \<mapsto> installed_pkg])
       [''openjdk-11-source'']
     = (Inl TypeError, [''openjdk-11-source''],
        init_handler [''openjdk-11-source'' \<mapsto> installed_pkg])"
  by (simp add: install_bucket_def uptodate_single uptodate_item_def native_name_def
      check_java_equiv_def regex_defs Let_def init_handler_def installed_pkg_def)

lemma starts_with_append: "starts_with sub p \<Longrightarrow> starts_with sub (p @ t)"
  by (induction sub p rule: starts_with.induct) auto

lemma str_contains_append: "str_contains sub p \<Longrightarrow> str_contains sub (p @ t)"
proof (induction p)
  case Nil
  then show ?case by (cases t) auto
next
  case (Cons c cs)
  then show ?case using starts_with_append [of sub "c # cs" t] by auto
qed

lemma str_split_nonempty: "str_split sep s \<noteq> []"
  by (induction sep s rule: str_split.induct) (auto split: list.splits)

lemma str_split_first_prefix: "str_split sep s = p # ps \<Longrightarrow> \<exists>t. s = p @ t"
proof (induction sep s arbitrary: p ps rule: str_split.induct)
  case (1 sep)
  then show ?case by simp
next
  case (2 sep c cs)
  show ?case
  proof (cases "starts_with sep (c # cs)")
    case True
    with 2(3) show ?thesis by simp
  next
    case False
    obtain q qs where q: "str_split sep cs = q # qs"
      using str_split_nonempty [of sep cs] by (cases "str_split sep cs") auto
    from 2(2) [OF False q] obtain t where "cs = q @ t" by blast
    with 2(3) False q show ?thesis by auto
  qed
qed

lemma str_split_two: "sep \<noteq> [] \<Longrightarrow> str_contains sep s \<Longrightarrow> 2 \<le> length (str_split sep s)"
proof (induction sep s rule: str_split.induct)
  case (1 sep)
  then show ?case by simp
next
  case (2 sep c cs)
  show ?case
  proof (cases "starts_with sep (c # cs)")
    case True
    then show ?thesis
      using str_split_nonempty [of sep "drop (length sep - 1) cs"]
      by (cases "str_split sep (drop (length sep - 1) cs)") auto
  next
    case False
    with 2 have "2 \<le> length (str_split sep cs)" by simp
    with False show ?thesis by (cases "str_split sep cs") auto
  qed
qed

lemma native_name_cases:
  assumes "length (str_split '':'' s) \<le> 2"
  shows "native_name sys s = Inr s
       \<or> (\<exists>name arch. str_split '':'' s = [name, arch] \<and> native_name sys s = Inr name)"
proof (cases "str_contains '':'' s")
  case False
  then show ?thesis by (simp add: native_name_def)
next
  case True
  then have "2 \<le> length (str_split '':'' s)" by (intro str_split_two) auto
  with assms have "length (str_split '':'' s) = 2" by simp
  then obtain name arch where "str_split '':'' s = [name, arch]"
    by (auto simp: length_Suc_conv numeral_2_eq_2)
  with True show ?thesis by (auto simp: native_name_def)
qed

lemma native_name_plain:
  assumes "length (str_split '':'' s) \<le> 2" and "\<not> str_contains ''openjdk'' s"
  shows "\<exists>name. native_name sys s = Inr name \<and> \<not> str_contains ''openjdk'' name"
proof -
  from native_name_cases [OF assms(1)] show ?thesis
  proof
    assume "native_name sys s = Inr s"
    with assms(2) show ?thesis by blast
  next
    assume "\<exists>name arch. str_split '':'' s = [name, arch] \<and> native_name sys s = Inr name"
    then obtain name arch where sp: "str_split '':'' s = [name, arch]"
      and nn: "native_name sys s = Inr name" by blast
    from str_split_first_prefix [OF sp] obtain t where "s = name @ t" by blast
    with assms(2) str_contains_append [of "''openjdk''" name t]
    have "\<not> str_contains ''openjdk'' name" by blast
    with nn show ?thesis by blast
  qed
qed

lemma uptodate_item_plain:
  assumes "native_name sys s = Inr name" and "\<not> str_contains ''openjdk'' name"
  shows "uptodate_item sys h s f = (Inr (f \<and> up_to_date h name), h)"
  using assms by (auto simp: uptodate_item_def up_to_date_def Let_def split: option.splits)

text \<open>
  On a bucket of plain specifiers \<^verbatim>\<open>is_bucket_uptodate\<close> changes nothing and says
  whether every specifier names a package that is up to date.
\<close>

lemma uptodate_loop_plain:
  assumes "\<forall>s\<in>set (drop i bucket). plain s"
  shows "is_bucket_uptodate_loop sys h bucket i f =
     (Inr (f \<and> (\<forall>s\<in>set (drop i bucket). \<forall>name. native_name sys s = Inr name \<longrightarrow> up_to_date h name)),
      bucket, h)"
  using assms
proof (induction "length bucket - i" arbitrary: i f)
  case 0
  then show ?case by (simp add: is_bucket_uptodate_loop.simps)
next
  case (Suc n)
  then have inside: "i < length bucket" by simp
  then have dr: "drop i bucket = bucket ! i # drop (Suc i) bucket"
    by (simp add: Cons_nth_drop_Suc)
  with Suc.prems have p: "plain (bucket ! i)" and rest: "\<forall>s\<in>set (drop (Suc i) bucket). plain s"
    by simp_all
  from p native_name_plain [of "bucket ! i" sys] obtain name where
    nn: "native_name sys (bucket ! i) = Inr name" and nj: "\<not> str_contains ''openjdk'' name"
    by (auto simp: plain_def)
  have item: "uptodate_item sys h (bucket ! i) f = (Inr (f \<and> up_to_date h name), h)"
    using nn nj by (rule uptodate_item_plain)
  have "n = length bucket - Suc i" using Suc(2) by simp
  from Suc(1) [OF this rest]
  have "is_bucket_uptodate_loop sys h bucket (Suc i) (f \<and> up_to_date h name) =
     (Inr ((f \<and> up_to_date h name)
           \<and> (\<forall>s\<in>set (drop (Suc i) bucket). \<forall>name. native_name sys s = Inr name \<longrightarrow> up_to_date h name)),
      bucket, h)" .
  with inside p item nn show ?case
    by (subst is_bucket_uptodate_loop.simps) (auto simp: plain_def dr)
qed

lemma uptodate_plain_bucket:
  assumes "\<forall>s\<in>set bucket. plain s"
  shows "is_bucket_uptodate sys h bucket =
     (Inr (\<forall>s\<in>set bucket. \<forall>name. native_name sys s = Inr name \<longrightarrow> up_to_date h name),
      bucket, h)"
  using uptodate_loop_plain [of 0 bucket sys h True] assms by (simp add: is_bucket_uptodate_def)

text \<open>
  For such a bucket whose packages are all up to date, \<^verbatim>\<open>install_bucket\<close> returns
  false, and the task returns from its own evaluation: the handler has called the
  completion callback with no error, and nothing of the package manager.
\<close>

lemma uptodate_bucket_short_circuits:
  assumes "\<forall>s\<in>set bucket. plain s"
    and "\<forall>s\<in>set bucket. \<forall>name. native_name sys s = Inr name \<longrightarrow> up_to_date h name"
  shows "is_bucket_uptodate sys h bucket = (Inr True, bucket, h)"
    and "install_bucket sys h bucket = (Inr False, bucket, h\<lparr>queue := queue h @ [bucket]\<rparr>)"
    and "run_task sys pm h bucket
         = h\<lparr>apt_fd := None,
              calls := calls h @ [Installed (RequirementsResult bucket None)]\<rparr>"
proof -
  show up: "is_bucket_uptodate sys h bucket = (Inr True, bucket, h)"
    using uptodate_plain_bucket [OF assms(1), of sys h] assms(2) by simp
  then show "install_bucket sys h bucket = (Inr False, bucket, h\<lparr>queue := queue h @ [bucket]\<rparr>)"
    by (simp add: install_bucket_def)
  have "\<forall>s\<in>set bucket. \<forall>name. native_name sys s = Inr name \<longrightarrow> up_to_date (h\<lparr>apt_fd := Some []\<rparr>) name"
    using assms(2) by (simp add: up_to_date_def)
  with uptodate_plain_bucket [OF assms(1), of sys "h\<lparr>apt_fd := Some []\<rparr>"]
  have "is_bucket_uptodate sys (h\<lparr>apt_fd := Some []\<rparr>) bucket = (Inr True, bucket, h\<lparr>apt_fd := Some []\<rparr>)"
    by simp
  then show "run_task sys pm h bucket
         = h\<lparr>apt_fd := None,
              calls := calls h @ [Installed (RequirementsResult bucket None)]\<rparr>"
    by (simp add: run_task_def really_install_bucket_def on_done_def)
qed

text \<open>
  C3, as amended. In a bucket without alternation, without a specifier containing
  \<^verbatim>\<open>openjdk\<close>, and with at most one colon in each specifier, one specifier whose
  package (the name without the native architecture) is not in the cache, not
  installed or upgradable makes \<^verbatim>\<open>is_bucket_uptodate\<close> return false.
\<close>

theorem stale_specifier_not_uptodate:
  assumes "\<forall>s\<in>set bucket. \<not> str_contains '' | '' s \<and> \<not> str_contains ''openjdk'' s
                          \<and> length (str_split '':'' s) \<le> 2"
    and "\<exists>s\<in>set bucket. \<exists>name. native_name sys s = Inr name
           \<and> (case cache h name of None \<Rightarrow> True | Some p \<Rightarrow> \<not> is_installed p \<or> is_upgradable p)"
  shows "is_bucket_uptodate sys h bucket = (Inr False, bucket, h)"
proof -
  from assms(1) have "\<forall>s\<in>set bucket. plain s" by (simp add: plain_def)
  from uptodate_plain_bucket [OF this]
  have "is_bucket_uptodate sys h bucket =
     (Inr (\<forall>s\<in>set bucket. \<forall>name. native_name sys s = Inr name \<longrightarrow> up_to_date h name),
      bucket, h)" .
  moreover from assms(2) have
    "\<not> (\<forall>s\<in>set bucket. \<forall>name. native_name sys s = Inr name \<longrightarrow> up_to_date h name)"
    by (auto simp: up_to_date_def split: option.splits)
  ultimately show ?thesis by simp
qed

text \<open>The bucket of \<^verbatim>\<open>gcc-avr\<close>, installed, and \<^verbatim>\<open>avr-libc:amd64\<close>, not in the cache.\<close>

theorem stale_specifier_not_uptodate_witness:
  "\<not> str_contains '' | '' ''gcc-avr'' \<and> \<not> str_contains ''openjdk'' ''gcc-avr''
   \<and> length (str_split '':'' ''gcc-avr'') \<le> 2
   \<and> \<not> str_contains '' | '' ''avr-libc:amd64'' \<and> \<not> str_contains ''openjdk'' ''avr-libc:amd64''
   \<and> length (str_split '':'' ''avr-libc:amd64'') \<le> 2
   \<and> native_name host_amd64 ''avr-libc:amd64'' = Inr ''avr-libc''
   \<and> cache (init_handler [''gcc-avr'' \<mapsto> installed_pkg]) ''avr-libc'' = None
   \<and> is_bucket_uptodate host_amd64 (init_handler [''gcc-avr'' \<mapsto> installed_pkg])
        [''gcc-avr'', ''avr-libc:amd64'']
      = (Inr False, [''gcc-avr'', ''avr-libc:amd64''], init_handler [''gcc-avr'' \<mapsto> installed_pkg])"
proof -
  let ?h = "init_handler [''gcc-avr'' \<mapsto> installed_pkg]"
  have a: "\<forall>s\<in>set [''gcc-avr'', ''avr-libc:amd64''].
       \<not> str_contains '' | '' s \<and> \<not> str_contains ''openjdk'' s \<and> length (str_split '':'' s) \<le> 2"
    by simp
  have n: "native_name host_amd64 ''avr-libc:amd64'' = Inr ''avr-libc''"
    by (simp add: native_name_def host_amd64_def)
  have c: "cache ?h ''avr-libc'' = None" by (simp add: init_handler_def)
  have b: "\<exists>s\<in>set [''gcc-avr'', ''avr-libc:amd64'']. \<exists>name. native_name host_amd64 s = Inr name
           \<and> (case cache ?h name of None \<Rightarrow> True | Some p \<Rightarrow> \<not> is_installed p \<or> is_upgradable p)"
    using n c by simp
  from stale_specifier_not_uptodate [OF a b] a n c show ?thesis by simp
qed

text \<open>
  C3 as stated fails by design on the Java equivalence: with a JDK 11 on the path,
  \<^verbatim>\<open>is_bucket_uptodate\<close> returns true for \<^verbatim>\<open>["openjdk-11-jdk"]\<close>, a package that
  is not in the cache.
\<close>

theorem java_equivalence_counterexample:
  "cache (init_handler Map.empty) ''openjdk-11-jdk'' = None
   \<and> is_bucket_uptodate (host_amd64\<lparr>javac_version := Output javac11_banner\<rparr>)
       (init_handler Map.empty) [''openjdk-11-jdk'']
     = (Inr True, [''openjdk-11-jdk''],
        (init_handler Map.empty)\<lparr>jdk_installed_version := Some javac11_banner\<rparr>)"
  by (simp add: uptodate_single uptodate_item_def native_name_def check_java_equiv_def
      regex_defs Let_def init_handler_def host_amd64_def javac11_banner_def installed_banner_def
      str_ge_def)

subsection \<open>Where a resolved alternative goes\<close>

lemma rotate_same: "xs @ [p] = p # xs \<Longrightarrow> x \<in> set xs \<Longrightarrow> x = p"
  by (induction xs) auto

lemma resolved_at_endI: "b' = pre @ post @ [p] \<Longrightarrow> resolved_at_end pre post p b'"
  unfolding resolved_at_end_def
  by (auto simp: nth_append hd_append dest: rotate_same) (cases post; simp)+

lemma str_split_parts_plain:
  "sep \<noteq> [] \<Longrightarrow> p \<in> set (str_split sep s) \<Longrightarrow> \<not> str_contains sep p"
proof (induction sep s arbitrary: p rule: str_split.induct)
  case (1 sep)
  then show ?case by auto
next
  case (2 sep c cs)
  show ?case
  proof (cases "starts_with sep (c # cs)")
    case True
    with 2(1) [OF True 2(3)] 2(3,4) show ?thesis by auto
  next
    case False
    obtain q qs where q: "str_split sep cs = q # qs"
      using str_split_nonempty [of sep cs] by (cases "str_split sep cs") auto
    from str_split_first_prefix [OF q] obtain t where t: "cs = q @ t" by blast
    have first: "\<not> str_contains sep (c # q)"
    proof
      assume "str_contains sep (c # q)"
      then have "starts_with sep (c # q) \<or> str_contains sep q" by simp
      then show False
      proof
        assume "starts_with sep (c # q)"
        from starts_with_append [OF this, of t] t False show False by simp
      next
        assume "str_contains sep q"
        with 2(2) [OF False 2(3), of q] q show False by simp
      qed
    qed
    from 2(4) False q have "p = c # q \<or> p \<in> set qs" by simp
    then show ?thesis
    proof
      assume "p = c # q"
      with first show ?thesis by simp
    next
      assume "p \<in> set qs"
      with 2(2) [OF False 2(3), of p] q show ?thesis by simp
    qed
  qed
qed

lemma installed_loop_plain_bucket:
  assumes "\<forall>s\<in>set (drop i bucket). \<not> str_contains '' | '' s"
  shows "fst (snd (is_bucket_installed_loop sys h bucket i f)) = bucket"
  using assms
proof (induction "length bucket - i" arbitrary: i h f)
  case 0
  then show ?case by (simp add: is_bucket_installed_loop.simps)
next
  case (Suc n)
  then have inside: "i < length bucket" by simp
  then have dr: "drop i bucket = bucket ! i # drop (Suc i) bucket"
    by (simp add: Cons_nth_drop_Suc)
  with Suc.prems have p: "\<not> str_contains '' | '' (bucket ! i)"
    and rest: "\<forall>s\<in>set (drop (Suc i) bucket). \<not> str_contains '' | '' s"
    by simp_all
  have n: "n = length bucket - Suc i" using Suc(2) by simp
  obtain r h' where item: "installed_item sys h (bucket ! i) f = (r, h')"
    by (cases "installed_item sys h (bucket ! i) f")
  show ?case
  proof (cases r)
    case (Inl e)
    with inside p item show ?thesis by (simp add: is_bucket_installed_loop.simps)
  next
    case (Inr g)
    from Suc(1) [OF n rest, of h' g] inside p item Inr show ?thesis
      by (simp add: is_bucket_installed_loop.simps [of sys h bucket i])
  qed
qed

lemma installed_loop_prefix:
  assumes "\<forall>s\<in>set pre. \<not> str_contains '' | '' s" and "i \<le> length pre"
  shows "(\<exists>e h'. is_bucket_installed_loop sys h (pre @ rest) i f = (Inl e, pre @ rest, h'))
       \<or> (\<exists>h' f'. is_bucket_installed_loop sys h (pre @ rest) i f
             = is_bucket_installed_loop sys h' (pre @ rest) (length pre) f')"
  using assms(2)
proof (induction "length pre - i" arbitrary: i h f)
  case 0
  then have "i = length pre" by simp
  then show ?case by blast
next
  case (Suc n)
  then have inside: "i < length pre" by simp
  with assms(1) have p: "\<not> str_contains '' | '' ((pre @ rest) ! i)"
    by (simp add: nth_append)
  have n: "n = length pre - Suc i" using Suc(2) by simp
  obtain r h' where item: "installed_item sys h ((pre @ rest) ! i) f = (r, h')"
    by (cases "installed_item sys h ((pre @ rest) ! i) f")
  show ?case
  proof (cases r)
    case (Inl e)
    with inside p item show ?thesis
      by (simp add: is_bucket_installed_loop.simps [of sys h "pre @ rest" i])
  next
    case (Inr g)
    from inside have "Suc i \<le> length pre" by simp
    from Suc(1) [OF n this, of h' g] inside p item Inr show ?thesis
      by (simp add: is_bucket_installed_loop.simps [of sys h "pre @ rest" i])
  qed
qed

lemma installed_alts_resolve:
  assumes "alt \<notin> set pre"
    and "\<forall>s\<in>set post. \<not> str_contains '' | '' s"
    and "\<forall>p\<in>set alts. \<not> str_contains '' | '' p"
  shows "fst (snd (is_bucket_installed_alts sys h (pre @ alt # post) (length pre) f alts))
           = pre @ alt # post
       \<or> (\<exists>p\<in>set alts.
             (\<exists>h1 b1 h2. is_bucket_installed sys h1 [p] = (Inr True, b1, h2))
             \<and> fst (snd (is_bucket_installed_alts sys h (pre @ alt # post) (length pre) f alts))
                 = pre @ post @ [p])"
  using assms(3)
proof (induction alts arbitrary: h)
  case Nil
  let ?bucket = "pre @ alt # post"
  have tail: "\<forall>s\<in>set (drop (Suc (length pre)) ?bucket). \<not> str_contains '' | '' s"
    using assms(2) by simp
  obtain r h' where item: "installed_item sys h (?bucket ! length pre) f = (r, h')"
    by (cases "installed_item sys h (?bucket ! length pre) f")
  show ?case
  proof (cases r)
    case (Inl e)
    with item show ?thesis by simp
  next
    case (Inr g)
    with item installed_loop_plain_bucket [OF tail, of sys h' g] show ?thesis by simp
  qed
next
  case (Cons p rest)
  let ?bucket = "pre @ alt # post"
  let ?resolved = "pre @ post @ [p]"
  have removed: "remove1 (?bucket ! length pre) ?bucket @ [p] = ?resolved"
    using assms(1) by (simp add: remove1_append)
  have tail: "\<forall>s\<in>set (drop (Suc (length pre)) ?resolved). \<not> str_contains '' | '' s"
  proof
    fix s assume "s \<in> set (drop (Suc (length pre)) ?resolved)"
    then have "s \<in> set (drop 1 (post @ [p]))" by simp
    then have "s \<in> set (post @ [p])" by (rule in_set_dropD)
    with assms(2) Cons.prems show "\<not> str_contains '' | '' s" by auto
  qed
  obtain r b1 h1 where test: "is_bucket_installed_loop sys h [p] 0 True = (r, b1, h1)"
    by (cases "is_bucket_installed_loop sys h [p] 0 True")
  show ?case
  proof (cases r)
    case (Inl e)
    with test show ?thesis by simp
  next
    case (Inr found)
    show ?thesis
    proof (cases found)
      case False
      from Cons.prems have "\<forall>p\<in>set rest. \<not> str_contains '' | '' p" by simp
      from Cons.IH [OF this, of h1] test Inr False show ?thesis by auto
    next
      case True
      with test Inr have passed: "is_bucket_installed sys h [p] = (Inr True, b1, h1)"
        by (simp add: is_bucket_installed_def)
      obtain r2 h2 where item: "installed_item sys h1 p f = (r2, h2)"
        by (cases "installed_item sys h1 p f")
      have "fst (snd (is_bucket_installed_alts sys h ?bucket (length pre) f (p # rest)))
          = ?resolved"
      proof (cases r2)
        case (Inl e)
        with test Inr True item removed show ?thesis by simp
      next
        case inr2: (Inr g)
        with test Inr True item removed installed_loop_plain_bucket [OF tail, of sys h2 g]
        show ?thesis by simp
      qed
      with passed show ?thesis by auto
    qed
  qed
qed

lemma installed_resolution:
  assumes "\<forall>s\<in>set pre \<union> set post. \<not> str_contains '' | '' s"
    and "str_contains '' | '' alt"
  shows "fst (snd (is_bucket_installed sys h (pre @ alt # post))) = pre @ alt # post
       \<or> (\<exists>p\<in>set (str_split '' | '' alt).
             (\<exists>h1 b1 h2. is_bucket_installed sys h1 [p] = (Inr True, b1, h2))
             \<and> fst (snd (is_bucket_installed sys h (pre @ alt # post))) = pre @ post @ [p])"
proof -
  let ?bucket = "pre @ alt # post"
  from assms have pre: "\<forall>s\<in>set pre. \<not> str_contains '' | '' s"
    and post: "\<forall>s\<in>set post. \<not> str_contains '' | '' s"
    and fresh: "alt \<notin> set pre" by auto
  have alts: "\<forall>p\<in>set (str_split '' | '' alt). \<not> str_contains '' | '' p"
    using str_split_parts_plain [of "'' | ''"] by blast
  from installed_loop_prefix [OF pre le0, of sys h "alt # post" True]
  show ?thesis
  proof
    assume "\<exists>e h'. is_bucket_installed_loop sys h ?bucket 0 True = (Inl e, ?bucket, h')"
    then show ?thesis by (auto simp: is_bucket_installed_def)
  next
    assume "\<exists>h' f'. is_bucket_installed_loop sys h ?bucket 0 True
             = is_bucket_installed_loop sys h' ?bucket (length pre) f'"
    then obtain h' f' where "is_bucket_installed_loop sys h ?bucket 0 True
             = is_bucket_installed_loop sys h' ?bucket (length pre) f'" by blast
    also have "\<dots> = is_bucket_installed_alts sys h' ?bucket (length pre) f' (str_split '' | '' alt)"
      using assms(2) by (simp add: is_bucket_installed_loop.simps [of sys h' ?bucket "length pre"])
    finally have "is_bucket_installed sys h ?bucket
        = is_bucket_installed_alts sys h' ?bucket (length pre) f' (str_split '' | '' alt)"
      by (simp add: is_bucket_installed_def)
    with installed_alts_resolve [OF fresh post alts, of sys h' f'] show ?thesis by simp
  qed
qed

lemma available_loop_plain_bucket:
  assumes "\<forall>s\<in>set (drop i bucket). \<not> str_contains '' | '' s"
  shows "fst (snd (is_bucket_available_loop sys h bucket i f)) = bucket"
  using assms
proof (induction "length bucket - i" arbitrary: i h f)
  case 0
  then show ?case by (simp add: is_bucket_available_loop.simps)
next
  case (Suc n)
  then have inside: "i < length bucket" by simp
  then have dr: "drop i bucket = bucket ! i # drop (Suc i) bucket"
    by (simp add: Cons_nth_drop_Suc)
  with Suc.prems have p: "\<not> str_contains '' | '' (bucket ! i)"
    and rest: "\<forall>s\<in>set (drop (Suc i) bucket). \<not> str_contains '' | '' s"
    by simp_all
  have n: "n = length bucket - Suc i" using Suc(2) by simp
  obtain r h' where item: "available_item sys h (bucket ! i) f = (r, h')"
    by (cases "available_item sys h (bucket ! i) f")
  show ?case
  proof (cases r)
    case (Inl e)
    with inside p item show ?thesis by (simp add: is_bucket_available_loop.simps)
  next
    case (Inr g)
    from Suc(1) [OF n rest, of h' g] inside p item Inr show ?thesis
      by (simp add: is_bucket_available_loop.simps [of sys h bucket i])
  qed
qed

lemma available_loop_prefix:
  assumes "\<forall>s\<in>set pre. \<not> str_contains '' | '' s" and "i \<le> length pre"
  shows "(\<exists>e h'. is_bucket_available_loop sys h (pre @ rest) i f = (Inl e, pre @ rest, h'))
       \<or> (\<exists>h' f'. is_bucket_available_loop sys h (pre @ rest) i f
             = is_bucket_available_loop sys h' (pre @ rest) (length pre) f')"
  using assms(2)
proof (induction "length pre - i" arbitrary: i h f)
  case 0
  then have "i = length pre" by simp
  then show ?case by blast
next
  case (Suc n)
  then have inside: "i < length pre" by simp
  with assms(1) have p: "\<not> str_contains '' | '' ((pre @ rest) ! i)"
    by (simp add: nth_append)
  have n: "n = length pre - Suc i" using Suc(2) by simp
  obtain r h' where item: "available_item sys h ((pre @ rest) ! i) f = (r, h')"
    by (cases "available_item sys h ((pre @ rest) ! i) f")
  show ?case
  proof (cases r)
    case (Inl e)
    with inside p item show ?thesis
      by (simp add: is_bucket_available_loop.simps [of sys h "pre @ rest" i])
  next
    case (Inr g)
    from inside have "Suc i \<le> length pre" by simp
    from Suc(1) [OF n this, of h' g] inside p item Inr show ?thesis
      by (simp add: is_bucket_available_loop.simps [of sys h "pre @ rest" i])
  qed
qed

lemma available_alts_resolve:
  assumes "alt \<notin> set pre"
    and "\<forall>s\<in>set post. \<not> str_contains '' | '' s"
    and "\<forall>p\<in>set alts. \<not> str_contains '' | '' p"
  shows "fst (snd (is_bucket_available_alts sys h (pre @ alt # post) (length pre) f alts))
           = pre @ alt # post
       \<or> (\<exists>p\<in>set alts.
             (\<exists>h1 b1 h2. is_bucket_available sys h1 [p] = (Inr True, b1, h2))
             \<and> fst (snd (is_bucket_available_alts sys h (pre @ alt # post) (length pre) f alts))
                 = pre @ post @ [p])"
  using assms(3)
proof (induction alts arbitrary: h)
  case Nil
  let ?bucket = "pre @ alt # post"
  have tail: "\<forall>s\<in>set (drop (Suc (length pre)) ?bucket). \<not> str_contains '' | '' s"
    using assms(2) by simp
  obtain r h' where item: "available_item sys h (?bucket ! length pre) f = (r, h')"
    by (cases "available_item sys h (?bucket ! length pre) f")
  show ?case
  proof (cases r)
    case (Inl e)
    with item show ?thesis by simp
  next
    case (Inr g)
    with item available_loop_plain_bucket [OF tail, of sys h' g] show ?thesis by simp
  qed
next
  case (Cons p rest)
  let ?bucket = "pre @ alt # post"
  let ?resolved = "pre @ post @ [p]"
  have removed: "remove1 (?bucket ! length pre) ?bucket @ [p] = ?resolved"
    using assms(1) by (simp add: remove1_append)
  have tail: "\<forall>s\<in>set (drop (Suc (length pre)) ?resolved). \<not> str_contains '' | '' s"
  proof
    fix s assume "s \<in> set (drop (Suc (length pre)) ?resolved)"
    then have "s \<in> set (drop 1 (post @ [p]))" by simp
    then have "s \<in> set (post @ [p])" by (rule in_set_dropD)
    with assms(2) Cons.prems show "\<not> str_contains '' | '' s" by auto
  qed
  obtain r b1 h1 where test: "is_bucket_available_loop sys h [p] 0 True = (r, b1, h1)"
    by (cases "is_bucket_available_loop sys h [p] 0 True")
  show ?case
  proof (cases r)
    case (Inl e)
    with test show ?thesis by simp
  next
    case (Inr found)
    show ?thesis
    proof (cases found)
      case False
      from Cons.prems have "\<forall>p\<in>set rest. \<not> str_contains '' | '' p" by simp
      from Cons.IH [OF this, of h1] test Inr False show ?thesis by auto
    next
      case True
      with test Inr have passed: "is_bucket_available sys h [p] = (Inr True, b1, h1)"
        by (simp add: is_bucket_available_def)
      obtain r2 h2 where item: "available_item sys h1 p f = (r2, h2)"
        by (cases "available_item sys h1 p f")
      have "fst (snd (is_bucket_available_alts sys h ?bucket (length pre) f (p # rest)))
          = ?resolved"
      proof (cases r2)
        case (Inl e)
        with test Inr True item removed show ?thesis by simp
      next
        case inr2: (Inr g)
        with test Inr True item removed available_loop_plain_bucket [OF tail, of sys h2 g]
        show ?thesis by simp
      qed
      with passed show ?thesis by auto
    qed
  qed
qed

lemma available_resolution:
  assumes "\<forall>s\<in>set pre \<union> set post. \<not> str_contains '' | '' s"
    and "str_contains '' | '' alt"
  shows "fst (snd (is_bucket_available sys h (pre @ alt # post))) = pre @ alt # post
       \<or> (\<exists>p\<in>set (str_split '' | '' alt).
             (\<exists>h1 b1 h2. is_bucket_available sys h1 [p] = (Inr True, b1, h2))
             \<and> fst (snd (is_bucket_available sys h (pre @ alt # post))) = pre @ post @ [p])"
proof -
  let ?bucket = "pre @ alt # post"
  from assms have pre: "\<forall>s\<in>set pre. \<not> str_contains '' | '' s"
    and post: "\<forall>s\<in>set post. \<not> str_contains '' | '' s"
    and fresh: "alt \<notin> set pre" by auto
  have alts: "\<forall>p\<in>set (str_split '' | '' alt). \<not> str_contains '' | '' p"
    using str_split_parts_plain [of "'' | ''"] by blast
  from available_loop_prefix [OF pre le0, of sys h "alt # post" True]
  show ?thesis
  proof
    assume "\<exists>e h'. is_bucket_available_loop sys h ?bucket 0 True = (Inl e, ?bucket, h')"
    then show ?thesis by (auto simp: is_bucket_available_def)
  next
    assume "\<exists>h' f'. is_bucket_available_loop sys h ?bucket 0 True
             = is_bucket_available_loop sys h' ?bucket (length pre) f'"
    then obtain h' f' where "is_bucket_available_loop sys h ?bucket 0 True
             = is_bucket_available_loop sys h' ?bucket (length pre) f'" by blast
    also have "\<dots> = is_bucket_available_alts sys h' ?bucket (length pre) f' (str_split '' | '' alt)"
      using assms(2) by (simp add: is_bucket_available_loop.simps [of sys h' ?bucket "length pre"])
    finally have "is_bucket_available sys h ?bucket
        = is_bucket_available_alts sys h' ?bucket (length pre) f' (str_split '' | '' alt)"
      by (simp add: is_bucket_available_def)
    with available_alts_resolve [OF fresh post alts, of sys h' f'] show ?thesis by simp
  qed
qed

lemma uptodate_loop_plain_bucket:
  assumes "\<forall>s\<in>set (drop i bucket). \<not> str_contains '' | '' s"
  shows "fst (snd (is_bucket_uptodate_loop sys h bucket i f)) = bucket"
  using assms
proof (induction "length bucket - i" arbitrary: i h f)
  case 0
  then show ?case by (simp add: is_bucket_uptodate_loop.simps)
next
  case (Suc n)
  then have inside: "i < length bucket" by simp
  then have dr: "drop i bucket = bucket ! i # drop (Suc i) bucket"
    by (simp add: Cons_nth_drop_Suc)
  with Suc.prems have p: "\<not> str_contains '' | '' (bucket ! i)"
    and rest: "\<forall>s\<in>set (drop (Suc i) bucket). \<not> str_contains '' | '' s"
    by simp_all
  have n: "n = length bucket - Suc i" using Suc(2) by simp
  obtain r h' where item: "uptodate_item sys h (bucket ! i) f = (r, h')"
    by (cases "uptodate_item sys h (bucket ! i) f")
  show ?case
  proof (cases r)
    case (Inl e)
    with inside p item show ?thesis by (simp add: is_bucket_uptodate_loop.simps)
  next
    case (Inr g)
    from Suc(1) [OF n rest, of h' g] inside p item Inr show ?thesis
      by (simp add: is_bucket_uptodate_loop.simps [of sys h bucket i])
  qed
qed

lemma uptodate_loop_prefix:
  assumes "\<forall>s\<in>set pre. \<not> str_contains '' | '' s" and "i \<le> length pre"
  shows "(\<exists>e h'. is_bucket_uptodate_loop sys h (pre @ rest) i f = (Inl e, pre @ rest, h'))
       \<or> (\<exists>h' f'. is_bucket_uptodate_loop sys h (pre @ rest) i f
             = is_bucket_uptodate_loop sys h' (pre @ rest) (length pre) f')"
  using assms(2)
proof (induction "length pre - i" arbitrary: i h f)
  case 0
  then have "i = length pre" by simp
  then show ?case by blast
next
  case (Suc n)
  then have inside: "i < length pre" by simp
  with assms(1) have p: "\<not> str_contains '' | '' ((pre @ rest) ! i)"
    by (simp add: nth_append)
  have n: "n = length pre - Suc i" using Suc(2) by simp
  obtain r h' where item: "uptodate_item sys h ((pre @ rest) ! i) f = (r, h')"
    by (cases "uptodate_item sys h ((pre @ rest) ! i) f")
  show ?case
  proof (cases r)
    case (Inl e)
    with inside p item show ?thesis
      by (simp add: is_bucket_uptodate_loop.simps [of sys h "pre @ rest" i])
  next
    case (Inr g)
    from inside have "Suc i \<le> length pre" by simp
    from Suc(1) [OF n this, of h' g] inside p item Inr show ?thesis
      by (simp add: is_bucket_uptodate_loop.simps [of sys h "pre @ rest" i])
  qed
qed

lemma uptodate_alts_resolve:
  assumes "alt \<notin> set pre"
    and "\<forall>s\<in>set post. \<not> str_contains '' | '' s"
    and "\<forall>p\<in>set alts. \<not> str_contains '' | '' p"
  shows "fst (snd (is_bucket_uptodate_alts sys h (pre @ alt # post) (length pre) f alts))
           = pre @ alt # post
       \<or> (\<exists>p\<in>set alts.
             (\<exists>h1 b1 h2. is_bucket_available sys h1 [p] = (Inr True, b1, h2))
             \<and> fst (snd (is_bucket_uptodate_alts sys h (pre @ alt # post) (length pre) f alts))
                 = pre @ post @ [p])"
  using assms(3)
proof (induction alts arbitrary: h)
  case Nil
  let ?bucket = "pre @ alt # post"
  have tail: "\<forall>s\<in>set (drop (Suc (length pre)) ?bucket). \<not> str_contains '' | '' s"
    using assms(2) by simp
  obtain r h' where item: "uptodate_item sys h (?bucket ! length pre) f = (r, h')"
    by (cases "uptodate_item sys h (?bucket ! length pre) f")
  show ?case
  proof (cases r)
    case (Inl e)
    with item show ?thesis by simp
  next
    case (Inr g)
    with item uptodate_loop_plain_bucket [OF tail, of sys h' g] show ?thesis by simp
  qed
next
  case (Cons p rest)
  let ?bucket = "pre @ alt # post"
  let ?resolved = "pre @ post @ [p]"
  have removed: "remove1 (?bucket ! length pre) ?bucket @ [p] = ?resolved"
    using assms(1) by (simp add: remove1_append)
  have tail: "\<forall>s\<in>set (drop (Suc (length pre)) ?resolved). \<not> str_contains '' | '' s"
  proof
    fix s assume "s \<in> set (drop (Suc (length pre)) ?resolved)"
    then have "s \<in> set (drop 1 (post @ [p]))" by simp
    then have "s \<in> set (post @ [p])" by (rule in_set_dropD)
    with assms(2) Cons.prems show "\<not> str_contains '' | '' s" by auto
  qed
  obtain r b1 h1 where test: "is_bucket_available sys h [p] = (r, b1, h1)"
    by (cases "is_bucket_available sys h [p]")
  show ?case
  proof (cases r)
    case (Inl e)
    with test show ?thesis by simp
  next
    case (Inr found)
    show ?thesis
    proof (cases found)
      case False
      from Cons.prems have "\<forall>p\<in>set rest. \<not> str_contains '' | '' p" by simp
      from Cons.IH [OF this, of h1] test Inr False show ?thesis by auto
    next
      case True
      with test Inr have passed: "is_bucket_available sys h [p] = (Inr True, b1, h1)"
        by simp
      obtain r2 h2 where item: "uptodate_item sys h1 p f = (r2, h2)"
        by (cases "uptodate_item sys h1 p f")
      have "fst (snd (is_bucket_uptodate_alts sys h ?bucket (length pre) f (p # rest)))
          = ?resolved"
      proof (cases r2)
        case (Inl e)
        with test Inr True item removed show ?thesis by simp
      next
        case inr2: (Inr g)
        with test Inr True item removed uptodate_loop_plain_bucket [OF tail, of sys h2 g]
        show ?thesis by simp
      qed
      with passed show ?thesis by auto
    qed
  qed
qed

lemma uptodate_resolution:
  assumes "\<forall>s\<in>set pre \<union> set post. \<not> str_contains '' | '' s"
    and "str_contains '' | '' alt"
  shows "fst (snd (is_bucket_uptodate sys h (pre @ alt # post))) = pre @ alt # post
       \<or> (\<exists>p\<in>set (str_split '' | '' alt).
             (\<exists>h1 b1 h2. is_bucket_available sys h1 [p] = (Inr True, b1, h2))
             \<and> fst (snd (is_bucket_uptodate sys h (pre @ alt # post))) = pre @ post @ [p])"
proof -
  let ?bucket = "pre @ alt # post"
  from assms have pre: "\<forall>s\<in>set pre. \<not> str_contains '' | '' s"
    and post: "\<forall>s\<in>set post. \<not> str_contains '' | '' s"
    and fresh: "alt \<notin> set pre" by auto
  have alts: "\<forall>p\<in>set (str_split '' | '' alt). \<not> str_contains '' | '' p"
    using str_split_parts_plain [of "'' | ''"] by blast
  from uptodate_loop_prefix [OF pre le0, of sys h "alt # post" True]
  show ?thesis
  proof
    assume "\<exists>e h'. is_bucket_uptodate_loop sys h ?bucket 0 True = (Inl e, ?bucket, h')"
    then show ?thesis by (auto simp: is_bucket_uptodate_def)
  next
    assume "\<exists>h' f'. is_bucket_uptodate_loop sys h ?bucket 0 True
             = is_bucket_uptodate_loop sys h' ?bucket (length pre) f'"
    then obtain h' f' where "is_bucket_uptodate_loop sys h ?bucket 0 True
             = is_bucket_uptodate_loop sys h' ?bucket (length pre) f'" by blast
    also have "\<dots> = is_bucket_uptodate_alts sys h' ?bucket (length pre) f' (str_split '' | '' alt)"
      using assms(2) by (simp add: is_bucket_uptodate_loop.simps [of sys h' ?bucket "length pre"])
    finally have "is_bucket_uptodate sys h ?bucket
        = is_bucket_uptodate_alts sys h' ?bucket (length pre) f' (str_split '' | '' alt)"
      by (simp add: is_bucket_uptodate_def)
    with uptodate_alts_resolve [OF fresh post alts, of sys h' f'] show ?thesis by simp
  qed
qed

text \<open>
  C10. In a bucket whose one alternation stands between the specifiers \<open>pre\<close> and
  \<open>post\<close>, each evaluator leaves the bucket as it was (no alternative passed the presence
  test, or an exception ended the evaluation first), or it has resolved the alternation
  to an alternative \<open>p\<close> that passed the test, and the bucket is then \<open>pre @ post @ [p]\<close>:
  the alternation is gone from its position, every specifier after it has moved one
  position to the front, and the alternative is the last element, which is not the
  alternation's position when \<open>post\<close> is not empty.
\<close>

theorem resolved_alternative_moves_to_end:
  assumes "\<forall>s\<in>set pre \<union> set post. \<not> str_contains '' | '' s"
    and "str_contains '' | '' alt"
  shows "(fst (snd (is_bucket_installed sys h (pre @ alt # post))) = pre @ alt # post
          \<or> (\<exists>p\<in>set (str_split '' | '' alt).
                (\<exists>h1 b1 h2. is_bucket_installed sys h1 [p] = (Inr True, b1, h2))
                \<and> resolved_at_end pre post p
                    (fst (snd (is_bucket_installed sys h (pre @ alt # post))))))
       \<and> (fst (snd (is_bucket_available sys h (pre @ alt # post))) = pre @ alt # post
          \<or> (\<exists>p\<in>set (str_split '' | '' alt).
                (\<exists>h1 b1 h2. is_bucket_available sys h1 [p] = (Inr True, b1, h2))
                \<and> resolved_at_end pre post p
                    (fst (snd (is_bucket_available sys h (pre @ alt # post))))))
       \<and> (fst (snd (is_bucket_uptodate sys h (pre @ alt # post))) = pre @ alt # post
          \<or> (\<exists>p\<in>set (str_split '' | '' alt).
                (\<exists>h1 b1 h2. is_bucket_available sys h1 [p] = (Inr True, b1, h2))
                \<and> resolved_at_end pre post p
                    (fst (snd (is_bucket_uptodate sys h (pre @ alt # post))))))"
  using installed_resolution [OF assms, of sys h] available_resolution [OF assms, of sys h]
    uptodate_resolution [OF assms, of sys h]
  by (intro conjI) (use resolved_at_endI in blast)+

text \<open>
  The Fritzing bucket: the alternation comes first, and its first alternative ends up
  last.
\<close>

theorem resolved_alternative_moves_to_end_witness:
  "\<not> str_contains '' | '' ''libqt5serialport5'' \<and> \<not> str_contains '' | '' ''libqt5sql5''
   \<and> \<not> str_contains '' | '' ''libqt5xml5'' \<and> str_contains '' | '' ''libssl1.1 | libssl1.0''
   \<and> fritzing_bucket = [] @ ''libssl1.1 | libssl1.0'' # [''libqt5serialport5'', ''libqt5sql5'', ''libqt5xml5'']
   \<and> fst (snd (is_bucket_installed host_amd64 (init_handler fritzing_cache) fritzing_bucket))
       = [''libqt5serialport5'', ''libqt5sql5'', ''libqt5xml5'', ''libssl1.1'']
   \<and> fst (snd (is_bucket_available host_amd64 (init_handler fritzing_cache) fritzing_bucket))
       = [''libqt5serialport5'', ''libqt5sql5'', ''libqt5xml5'', ''libssl1.1'']
   \<and> fst (snd (is_bucket_uptodate host_amd64 (init_handler fritzing_cache) fritzing_bucket))
       = [''libqt5serialport5'', ''libqt5sql5'', ''libqt5xml5'', ''libssl1.1'']
   \<and> (\<exists>p. p \<in> set (str_split '' | '' ''libssl1.1 | libssl1.0'')
          \<and> resolved_at_end [] [''libqt5serialport5'', ''libqt5sql5'', ''libqt5xml5''] p
               (fst (snd (is_bucket_installed host_amd64 (init_handler fritzing_cache)
                  fritzing_bucket))))"
proof -
  let ?h = "init_handler fritzing_cache"
  let ?post = "[''libqt5serialport5'', ''libqt5sql5'', ''libqt5xml5'']"
  let ?alt = "''libssl1.1 | libssl1.0''"
  have plain: "\<forall>s\<in>set [] \<union> set ?post. \<not> str_contains '' | '' s" by simp
  have alt: "str_contains '' | '' ?alt" by simp
  have shape: "fritzing_bucket = [] @ ?alt # ?post" by (simp add: fritzing_bucket_def)
  have i: "fst (snd (is_bucket_installed host_amd64 ?h fritzing_bucket))
       = [''libqt5serialport5'', ''libqt5sql5'', ''libqt5xml5'', ''libssl1.1'']"
    by (simp add: is_bucket_installed_def is_bucket_installed_loop.simps installed_item_def
        native_name_def init_handler_def fritzing_cache_def fritzing_bucket_def installed_pkg_def)
  have a: "fst (snd (is_bucket_available host_amd64 ?h fritzing_bucket))
       = [''libqt5serialport5'', ''libqt5sql5'', ''libqt5xml5'', ''libssl1.1'']"
    by (simp add: is_bucket_available_def is_bucket_available_loop.simps available_item_def
        init_handler_def fritzing_cache_def fritzing_bucket_def)
  have u: "fst (snd (is_bucket_uptodate host_amd64 ?h fritzing_bucket))
       = [''libqt5serialport5'', ''libqt5sql5'', ''libqt5xml5'', ''libssl1.1'']"
    by (simp add: is_bucket_uptodate_def is_bucket_uptodate_loop.simps uptodate_item_def
        is_bucket_available_def is_bucket_available_loop.simps available_item_def
        native_name_def init_handler_def fritzing_cache_def fritzing_bucket_def installed_pkg_def)
  from i have changed: "fst (snd (is_bucket_installed host_amd64 ?h ([] @ ?alt # ?post)))
       \<noteq> [] @ ?alt # ?post" by (simp add: fritzing_bucket_def)
  from resolved_alternative_moves_to_end [OF plain alt, of host_amd64 ?h] changed
  have "\<exists>p. p \<in> set (str_split '' | '' ?alt)
          \<and> resolved_at_end [] ?post p
               (fst (snd (is_bucket_installed host_amd64 ?h ([] @ ?alt # ?post))))"
    by blast
  with shape i a u show ?thesis by simp
qed

subsection \<open>The native and the foreign architecture\<close>

text \<open>
  What holds of the architecture handling next to C5: \<^verbatim>\<open>is_bucket_installed\<close> and
  \<^verbatim>\<open>is_bucket_uptodate\<close> evaluate a specifier with the native architecture as the
  bare name, and \<^verbatim>\<open>is_bucket_available\<close> does not report a package absent from the
  cache as unavailable when its architecture is neither the native one nor enabled.
\<close>

lemma str_split_plain: "\<not> str_contains sep s \<Longrightarrow> str_split sep s = [s]"
  by (induction sep s rule: str_split.induct) auto

lemma split_pair_contains:
  assumes "str_split '':'' s = [name, arch]"
  shows "str_contains '':'' s" and "\<not> str_contains '':'' name"
proof -
  show "str_contains '':'' s"
    using assms str_split_plain [of "'':''" s] by auto
  show "\<not> str_contains '':'' name"
    using assms str_split_parts_plain [of "'':''" name s] by simp
qed

lemma native_arch_is_stripped:
  assumes "str_split '':'' s = [name, current_arch sys]"
  shows "installed_item sys h s f = installed_item sys h name f"
    and "uptodate_item sys h s f = uptodate_item sys h name f"
  using assms split_pair_contains [OF assms]
  by (simp_all add: installed_item_def uptodate_item_def native_name_def)

lemma foreign_arch_may_be_available:
  assumes "str_split '':'' s = [name, arch]"
    and "arch \<noteq> current_arch sys" and "arch \<notin> set (foreign_archs sys)"
    and "cache h s = None"
  shows "available_item sys h s f = (Inr f, h)"
  using assms split_pair_contains(1) [OF assms(1)] by (simp add: available_item_def)

lemma foreign_arch_bucket_available:
  assumes "str_split '':'' s = [name, arch]" and "\<not> str_contains '' | '' s"
    and "arch \<noteq> current_arch sys" and "arch \<notin> set (foreign_archs sys)"
    and "cache h s = None"
  shows "is_bucket_available sys h [s] = (Inr True, [s], h)"
  using foreign_arch_may_be_available [OF assms(1,3,4,5)] assms(2) by (simp add: available_single)

end
